theory Spec2Isabelle
  imports Complex_Main
begin

section \<open>What the script takes from outside\<close>

text \<open>
  \<^verbatim>\<open>scripts/create_icon.py\<close> computes with Python floats and draws through an imaging
  library. Neither is part of the repository, so both are parameters of the model:
  \<^item> \<open>fl\<close> rounds the exact result of a float operation (and of a decimal literal) to the
    float the interpreter stores;
  \<^item> \<open>fcos\<close> and \<open>fsin\<close> are \<^verbatim>\<open>math.cos\<close> and \<^verbatim>\<open>math.sin\<close>;
  \<^item> \<open>pieslice_cover\<close> tells which pixels the library paints for a filled pie slice, given
    the bounding box and the two angles in degrees;
  \<^item> \<open>joined_cover\<close> tells which pixels a rounded rectangle paints when its corners are so
    large that they meet;
  \<^item> \<open>polygon_cover\<close> tells which pixels a filled polygon with integer vertices paints.
  Python's unbounded integers are \<open>int\<close>.
\<close>

record env =
  fl :: "real \<Rightarrow> real"
  fcos :: "real \<Rightarrow> real"
  fsin :: "real \<Rightarrow> real"
  pieslice_cover :: "int \<times> int \<Rightarrow> int \<times> int \<Rightarrow> int \<Rightarrow> int \<Rightarrow> int \<Rightarrow> int \<Rightarrow> bool"
  joined_cover :: "int \<times> int \<Rightarrow> int \<times> int \<Rightarrow> int \<Rightarrow> int \<Rightarrow> int \<Rightarrow> bool"
  polygon_cover :: "(int \<times> int) list \<Rightarrow> int \<Rightarrow> int \<Rightarrow> bool"

definition lit :: "env \<Rightarrow> real \<Rightarrow> real" where
  "lit E c = fl E c"

definition fadd :: "env \<Rightarrow> real \<Rightarrow> real \<Rightarrow> real" where
  "fadd E a b = fl E (a + b)"

definition fsub :: "env \<Rightarrow> real \<Rightarrow> real \<Rightarrow> real" where
  "fsub E a b = fl E (a - b)"

definition fmul :: "env \<Rightarrow> real \<Rightarrow> real \<Rightarrow> real" where
  "fmul E a b = fl E (a * b)"

definition fdiv :: "env \<Rightarrow> real \<Rightarrow> real \<Rightarrow> real" where
  "fdiv E a b = fl E (a / b)"

text \<open>Python's \<^verbatim>\<open>int(f)\<close> on a float drops the fractional part, towards zero.\<close>

definition py_int :: "real \<Rightarrow> int" where
  "py_int f = (if 0 \<le> f then \<lfloor>f\<rfloor> else \<lceil>f\<rceil>)"

section \<open>Images and drawing\<close>

text \<open>
  An image is a grid of pixel values addressed by integer coordinates; mode RGBA holds four
  channels per pixel, mode L a single one. Drawing never reaches outside the grid.
\<close>

type_synonym rgba = "int \<times> int \<times> int \<times> int"

definition red :: "rgba \<Rightarrow> int" where
  "red c = fst c"

definition green :: "rgba \<Rightarrow> int" where
  "green c = fst (snd c)"

definition blue :: "rgba \<Rightarrow> int" where
  "blue c = fst (snd (snd c))"

definition alpha :: "rgba \<Rightarrow> int" where
  "alpha c = snd (snd (snd c))"

record 'a image =
  width :: int
  height :: int
  px :: "int \<Rightarrow> int \<Rightarrow> 'a"

definition Image_new :: "int \<times> int \<Rightarrow> 'a \<Rightarrow> 'a image" where
  "Image_new wh c = \<lparr>width = fst wh, height = snd wh, px = (\<lambda>x y. c)\<rparr>"

definition in_image :: "'a image \<Rightarrow> int \<Rightarrow> int \<Rightarrow> bool" where
  "in_image img x y \<longleftrightarrow> 0 \<le> x \<and> x < width img \<and> 0 \<le> y \<and> y < height img"

text \<open>Every drawing call paints a set of pixels, clipped to the grid, with one fill value.\<close>

definition paint :: "(int \<Rightarrow> int \<Rightarrow> bool) \<Rightarrow> 'a \<Rightarrow> 'a image \<Rightarrow> 'a image" where
  "paint cover c img =
     img\<lparr>px := (\<lambda>x y. if in_image img x y \<and> cover x y then c else px img x y)\<rparr>"

text \<open>\<^verbatim>\<open>draw.rectangle([(x0, y0), (x1, y1)], fill)\<close>: both corners belong to the rectangle.\<close>

definition rectangle_cover :: "int \<times> int \<Rightarrow> int \<times> int \<Rightarrow> int \<Rightarrow> int \<Rightarrow> bool" where
  "rectangle_cover p0 p1 x y \<longleftrightarrow> fst p0 \<le> x \<and> x \<le> fst p1 \<and> snd p0 \<le> y \<and> y \<le> snd p1"

definition rectangle :: "int \<times> int \<Rightarrow> int \<times> int \<Rightarrow> 'a \<Rightarrow> 'a image \<Rightarrow> 'a image" where
  "rectangle p0 p1 c img = paint (rectangle_cover p0 p1) c img"

text \<open>
  \<^verbatim>\<open>draw.rounded_rectangle([(x0, y0), (x1, y1)], radius, fill)\<close>. When the corners are so
  large that they meet, the library draws the joined shape. With radius 0 it draws the plain
  rectangle. Otherwise it paints a pie slice of diameter \<open>2 * radius\<close> in each corner, the band
  between the left and the right corners over the full height, and the two side bands between
  the upper and the lower corners.
\<close>

definition rounded_rectangle_cover ::
  "env \<Rightarrow> int \<times> int \<Rightarrow> int \<times> int \<Rightarrow> int \<Rightarrow> int \<Rightarrow> int \<Rightarrow> bool" where
  "rounded_rectangle_cover E p0 p1 radius x y =
     (let x0 = fst p0; y0 = snd p0; x1 = fst p1; y1 = snd p1; d = radius * 2; r = radius in
      if d \<ge> x1 - x0 - 1 \<or> d \<ge> y1 - y0 - 1 then joined_cover E p0 p1 radius x y
      else if d = 0 then rectangle_cover p0 p1 x y
      else pieslice_cover E (x0, y0) (x0 + d, y0 + d) 180 270 x y
         \<or> pieslice_cover E (x1 - d, y0) (x1, y0 + d) 270 360 x y
         \<or> pieslice_cover E (x1 - d, y1 - d) (x1, y1) 0 90 x y
         \<or> pieslice_cover E (x0, y1 - d) (x0 + d, y1) 90 180 x y
         \<or> rectangle_cover (x0 + r + 1, y0) (x1 - r - 1, y1) x y
         \<or> rectangle_cover (x0, y0 + r + 1) (x0 + r, y1 - r - 1) x y
         \<or> rectangle_cover (x1 - r, y0 + r + 1) (x1, y1 - r - 1) x y)"

definition rounded_rectangle ::
  "env \<Rightarrow> int \<times> int \<Rightarrow> int \<times> int \<Rightarrow> int \<Rightarrow> 'a \<Rightarrow> 'a image \<Rightarrow> 'a image" where
  "rounded_rectangle E p0 p1 radius c img = paint (rounded_rectangle_cover E p0 p1 radius) c img"

text \<open>
  \<^verbatim>\<open>draw.polygon(points, fill)\<close>: the library cuts each coordinate to an integer, as
  \<^verbatim>\<open>int\<close> does, and fills the polygon through these vertices.
\<close>

definition int_points :: "(real \<times> real) list \<Rightarrow> (int \<times> int) list" where
  "int_points points = map (\<lambda>(a, b). (py_int a, py_int b)) points"

definition polygon :: "env \<Rightarrow> (real \<times> real) list \<Rightarrow> 'a \<Rightarrow> 'a image \<Rightarrow> 'a image" where
  "polygon E points c img = paint (polygon_cover E (int_points points)) c img"

text \<open>
  \<^verbatim>\<open>output.paste(img, (0, 0))\<close> copies every pixel of \<open>img\<close>, all four channels, to the same
  place of \<open>output\<close>; \<^verbatim>\<open>output.putalpha(mask)\<close> replaces the alpha channel by the mask.
\<close>

definition paste :: "'a image \<Rightarrow> 'a image \<Rightarrow> 'a image" where
  "paste src dst =
     dst\<lparr>px := (\<lambda>x y. if in_image dst x y \<and> in_image src x y then px src x y else px dst x y)\<rparr>"

definition putalpha :: "int image \<Rightarrow> rgba image \<Rightarrow> rgba image" where
  "putalpha msk img =
     img\<lparr>px := (\<lambda>x y. case px img x y of (r, g, b, a) \<Rightarrow>
                     if in_image img x y then (r, g, b, px msk x y) else (r, g, b, a))\<rparr>"

section \<open>The icon renderer\<close>

text \<open>Lines 14 to 22 of \<^verbatim>\<open>create_app_icon\<close>: the colour of row \<open>y\<close> and the loop over the rows.\<close>

definition gradient_color :: "env \<Rightarrow> int \<Rightarrow> int \<Rightarrow> rgba" where
  "gradient_color E sz y =
     (let ratio = fdiv E (of_int y) (of_int sz);
          r = py_int (fadd E 63 (fmul E (48 - 63) ratio));
          g = py_int (fadd E 81 (fmul E (63 - 81) ratio));
          b = py_int (fadd E 181 (fmul E (159 - 181) ratio))
      in (r, g, b, 255))"

definition gradient_row :: "env \<Rightarrow> int \<Rightarrow> int \<Rightarrow> rgba image \<Rightarrow> rgba image" where
  "gradient_row E sz y img = rectangle (0, y) (sz, y + 1) (gradient_color E sz y) img"

definition gradient_background :: "env \<Rightarrow> int \<Rightarrow> rgba image" where
  "gradient_background E sz =
     fold (gradient_row E sz) (map int [0..<nat sz]) (Image_new (sz, sz) (0, 0, 0, 0))"

text \<open>Lines 25 to 35: the rounded mask becomes the alpha channel of a copy of the background.\<close>

definition corner_radius :: "int \<Rightarrow> int" where
  "corner_radius sz = sz div 5"

definition rounded_mask :: "env \<Rightarrow> int \<Rightarrow> int image" where
  "rounded_mask E sz =
     rounded_rectangle E (0, 0) (sz, sz) (corner_radius sz) 255 (Image_new (sz, sz) 0)"

definition masked_background :: "env \<Rightarrow> int \<Rightarrow> rgba image" where
  "masked_background E sz =
     (let img = gradient_background E sz;
          output = Image_new (sz, sz) (0, 0, 0, 0);
          output = paste img output
      in putalpha (rounded_mask E sz) output)"

text \<open>Lines 40 to 62: the tent and its opening, two triangles on the same base line.\<close>

definition tent_width :: "int \<Rightarrow> int" where
  "tent_width sz = sz div 2"

definition tent_height :: "env \<Rightarrow> int \<Rightarrow> int" where
  "tent_height E sz = py_int (fmul E (of_int sz) (lit E 0.35))"

definition tent_x :: "int \<Rightarrow> int" where
  "tent_x sz = sz div 2"

definition tent_y :: "env \<Rightarrow> int \<Rightarrow> int" where
  "tent_y E sz = py_int (fmul E (of_int sz) (lit E 0.6))"

definition tent_points :: "env \<Rightarrow> int \<Rightarrow> (int \<times> int) list" where
  "tent_points E sz =
     [(tent_x sz - tent_width sz div 2, tent_y E sz),
      (tent_x sz, tent_y E sz - tent_height E sz),
      (tent_x sz + tent_width sz div 2, tent_y E sz)]"

definition opening_width :: "int \<Rightarrow> int" where
  "opening_width sz = tent_width sz div 2"

definition opening_height :: "env \<Rightarrow> int \<Rightarrow> int" where
  "opening_height E sz = tent_height E sz div 2"

definition opening_points :: "env \<Rightarrow> int \<Rightarrow> (int \<times> int) list" where
  "opening_points E sz =
     [(tent_x sz - opening_width sz div 2, tent_y E sz),
      (tent_x sz, tent_y E sz - opening_height E sz),
      (tent_x sz + opening_width sz div 2, tent_y E sz)]"

definition float_points :: "(int \<times> int) list \<Rightarrow> (real \<times> real) list" where
  "float_points ps = map (\<lambda>(a, b). (real_of_int a, real_of_int b)) ps"

text \<open>Lines 65 to 87: \<^verbatim>\<open>draw_star\<close> and the four stars.\<close>

definition star_point :: "env \<Rightarrow> real \<Rightarrow> real \<Rightarrow> real \<Rightarrow> nat \<Rightarrow> real \<times> real" where
  "star_point E x y radius i =
     (let angle = fsub E (fdiv E (fmul E (lit E pi) (of_nat i)) 5) (fdiv E (lit E pi) 2);
          r = (if i mod 2 = 0 then radius else fmul E radius (lit E 0.5));
          px = fadd E x (fmul E r (fcos E angle));
          py = fadd E y (fmul E r (fsin E angle))
      in (px, py))"

definition star_points :: "env \<Rightarrow> real \<Rightarrow> real \<Rightarrow> real \<Rightarrow> (real \<times> real) list" where
  "star_points E x y radius = map (star_point E x y radius) [0..<10]"

definition draw_star :: "env \<Rightarrow> real \<times> real \<times> real \<Rightarrow> rgba image \<Rightarrow> rgba image" where
  "draw_star E s img =
     (case s of (x, y, radius) \<Rightarrow> polygon E (star_points E x y radius) (255, 215, 0, 255) img)"

definition star_positions :: "env \<Rightarrow> int \<Rightarrow> (real \<times> real \<times> real) list" where
  "star_positions E sz =
     [(fmul E (of_int sz) (lit E 0.2), fmul E (of_int sz) (lit E 0.2), fmul E (of_int sz) (lit E 0.08)),
      (fmul E (of_int sz) (lit E 0.8), fmul E (of_int sz) (lit E 0.15), fmul E (of_int sz) (lit E 0.06)),
      (fmul E (of_int sz) (lit E 0.15), fmul E (of_int sz) (lit E 0.8), fmul E (of_int sz) (lit E 0.06)),
      (fmul E (of_int sz) (lit E 0.85), fmul E (of_int sz) (lit E 0.85), fmul E (of_int sz) (lit E 0.08))]"

definition create_app_icon :: "env \<Rightarrow> int \<Rightarrow> rgba image" where
  "create_app_icon E sz =
     (let output = masked_background E sz;
          output = polygon E (float_points (tent_points E sz)) (255, 255, 255, 255) output;
          output = polygon E (float_points (opening_points E sz)) (48, 63, 159, 255) output
      in fold (draw_star E) (star_positions E sz) output)"

section \<open>Calls of the renderer among image objects\<close>

text \<open>
  In the script an image is an object that is created once and then changed in place, and
  \<^verbatim>\<open>create_app_icon\<close> returns a reference to the last image it made. A heap is the list of
  the image objects alive and an address is a position in it; \<^verbatim>\<open>Image.new\<close> appends a fresh
  object. A \<^verbatim>\<open>Draw\<close> object is the address of the image it draws on. One call of
  \<^verbatim>\<open>create_app_icon\<close> runs lines 10 to 89 on the heap it finds. Reading an address that
  holds no image of the mode asked for gives the empty image; a call reads only addresses it
  has allocated itself.
\<close>

datatype obj = RGBA "rgba image" | L "int image"

type_synonym heap = "obj list"

definition new_image :: "obj \<Rightarrow> heap \<Rightarrow> nat \<times> heap" where
  "new_image ob h = (length h, h @ [ob])"

definition rgba_at :: "heap \<Rightarrow> nat \<Rightarrow> rgba image" where
  "rgba_at h a =
     (if a < length h then (case h ! a of RGBA img \<Rightarrow> img | L img \<Rightarrow> Image_new (0, 0) (0, 0, 0, 0))
      else Image_new (0, 0) (0, 0, 0, 0))"

definition l_at :: "heap \<Rightarrow> nat \<Rightarrow> int image" where
  "l_at h a =
     (if a < length h then (case h ! a of L img \<Rightarrow> img | RGBA img \<Rightarrow> Image_new (0, 0) 0)
      else Image_new (0, 0) 0)"

definition draw_on :: "nat \<Rightarrow> (rgba image \<Rightarrow> rgba image) \<Rightarrow> heap \<Rightarrow> heap" where
  "draw_on a f h = h[a := RGBA (f (rgba_at h a))]"

definition draw_on_L :: "nat \<Rightarrow> (int image \<Rightarrow> int image) \<Rightarrow> heap \<Rightarrow> heap" where
  "draw_on_L a f h = h[a := L (f (l_at h a))]"

definition create_app_icon_call :: "env \<Rightarrow> int \<Rightarrow> heap \<Rightarrow> nat \<times> heap" where
  "create_app_icon_call E sz h =
     (let (img, h) = new_image (RGBA (Image_new (sz, sz) (0, 0, 0, 0))) h;
          draw = img;
          h = fold (\<lambda>y. draw_on draw (gradient_row E sz y)) (map int [0..<nat sz]) h;
          (msk, h) = new_image (L (Image_new (sz, sz) 0)) h;
          mask_draw = msk;
          h = draw_on_L mask_draw (rounded_rectangle E (0, 0) (sz, sz) (corner_radius sz) 255) h;
          (output, h) = new_image (RGBA (Image_new (sz, sz) (0, 0, 0, 0))) h;
          h = draw_on output (paste (rgba_at h img)) h;
          h = draw_on output (putalpha (l_at h msk)) h;
          draw = output;
          h = draw_on draw (polygon E (float_points (tent_points E sz)) (255, 255, 255, 255)) h;
          h = draw_on draw (polygon E (float_points (opening_points E sz)) (48, 63, 159, 255)) h;
          h = fold (\<lambda>s. draw_on draw (draw_star E s)) (star_positions E sz) h
      in (output, h))"

section \<open>The driver\<close>

text \<open>
  \<^verbatim>\<open>main\<close> writes files. The file system is a set of directories and a map from paths to file
  contents, both keyed by the path string as the script builds it; a PNG file holds the bitmap
  it encodes and the manifest holds the JSON value that \<^verbatim>\<open>json.dump\<close> serialises. A raise of
  the interpreter is an error value that ends the run. The progress lines printed on standard
  output are left out.
\<close>

datatype json = JString string | JNumber int | JArray "json list" | JObject "(string \<times> json) list"

datatype content = PNG "rgba image" | JSON json

datatype error =
  FileNotFoundError string | FileExistsError string | IsADirectoryError string |
  NotADirectoryError string

record filesystem =
  dirs :: "string set"
  files :: "string \<rightharpoonup> content"

definition path_join :: "string \<Rightarrow> string \<Rightarrow> string" where
  "path_join a b =
     (if b \<noteq> [] \<and> hd b = CHR ''/'' then b
      else if a = [] \<or> last a = CHR ''/'' then a @ b
      else a @ ''/'' @ b)"

text \<open>
  The ancestors of a path: every non-empty prefix that ends just before a separator. The
  system walks them when it resolves the path, and refuses one that is a regular file.
\<close>

fun ancestors_from :: "string \<Rightarrow> string \<Rightarrow> string list" where
  "ancestors_from acc [] = []"
| "ancestors_from acc (c # cs) =
     (if c = CHR ''/'' \<and> acc \<noteq> [] then [acc] else []) @ ancestors_from (acc @ [c]) cs"

definition ancestors :: "string \<Rightarrow> string list" where
  "ancestors path = ancestors_from [] path"

text \<open>Opening \<open>d/name\<close> for writing, as \<^verbatim>\<open>icon.save\<close> and \<^verbatim>\<open>open(..., 'w')\<close> do.\<close>

definition write_file :: "string \<Rightarrow> string \<Rightarrow> content \<Rightarrow> filesystem \<Rightarrow> error + filesystem" where
  "write_file d name c fs =
     (let path = path_join d name in
      if list_ex (\<lambda>a. a \<in> dom (files fs)) (ancestors path) then Inl (NotADirectoryError path)
      else if d \<notin> dirs fs then Inl (FileNotFoundError path)
      else if path \<in> dirs fs then Inl (IsADirectoryError path)
      else Inr (fs\<lparr>files := (files fs)(path \<mapsto> c)\<rparr>))"

text \<open>
  \<^verbatim>\<open>os.makedirs(path, exist_ok=True)\<close>: it makes the missing ancestors and the directory
  itself, and raises when an ancestor or the path is a regular file.
\<close>

definition makedirs :: "string \<Rightarrow> filesystem \<Rightarrow> error + filesystem" where
  "makedirs path fs =
     (if list_ex (\<lambda>a. a \<in> dom (files fs)) (ancestors path) then Inl (NotADirectoryError path)
      else if path \<in> dom (files fs) then Inl (FileExistsError path)
      else Inr (fs\<lparr>dirs := dirs fs \<union> set (ancestors path) \<union> {path}\<rparr>))"

definition and_then :: "error + 'a \<Rightarrow> ('a \<Rightarrow> error + 'b) \<Rightarrow> error + 'b" where
  "and_then r f = (case r of Inl e \<Rightarrow> Inl e | Inr v \<Rightarrow> f v)"

fun for_each :: "('a \<Rightarrow> filesystem \<Rightarrow> error + filesystem) \<Rightarrow> 'a list \<Rightarrow> filesystem \<Rightarrow> error + filesystem" where
  "for_each body [] fs = Inr fs"
| "for_each body (x # xs) fs = and_then (body x fs) (for_each body xs)"

definition ios_path :: "string \<Rightarrow> string" where
  "ios_path here = path_join here ''../ios/KidsCampTracker/Images.xcassets/AppIcon.appiconset''"

definition android_path :: "string \<Rightarrow> string" where
  "android_path here = path_join here ''../android/app/src/main/res''"

definition ios_sizes :: "(int \<times> string) list" where
  "ios_sizes =
     [(40, ''icon-40.png''), (60, ''icon-60.png''), (58, ''icon-58.png''), (87, ''icon-87.png''),
      (80, ''icon-80.png''), (120, ''icon-120.png''), (180, ''icon-180.png''),
      (1024, ''icon-1024.png'')]"

definition image_entry :: "string \<Rightarrow> string \<Rightarrow> string \<Rightarrow> string \<Rightarrow> json" where
  "image_entry s i f sc =
     JObject [(''size'', JString s), (''idiom'', JString i), (''filename'', JString f),
              (''scale'', JString sc)]"

definition contents :: json where
  "contents = JObject
     [(''images'', JArray
        [image_entry ''20x20'' ''iphone'' ''icon-40.png'' ''2x'',
         image_entry ''20x20'' ''iphone'' ''icon-60.png'' ''3x'',
         image_entry ''29x29'' ''iphone'' ''icon-58.png'' ''2x'',
         image_entry ''29x29'' ''iphone'' ''icon-87.png'' ''3x'',
         image_entry ''40x40'' ''iphone'' ''icon-80.png'' ''2x'',
         image_entry ''40x40'' ''iphone'' ''icon-120.png'' ''3x'',
         image_entry ''60x60'' ''iphone'' ''icon-120.png'' ''2x'',
         image_entry ''60x60'' ''iphone'' ''icon-180.png'' ''3x'',
         image_entry ''1024x1024'' ''ios-marketing'' ''icon-1024.png'' ''1x'']),
      (''info'', JObject [(''version'', JNumber 1), (''author'', JString ''xcode'')])]"

definition android_sizes :: "(int \<times> string) list" where
  "android_sizes =
     [(48, ''mipmap-mdpi''), (72, ''mipmap-hdpi''), (96, ''mipmap-xhdpi''),
      (144, ''mipmap-xxhdpi''), (192, ''mipmap-xxxhdpi'')]"

definition save_ios_icon :: "env \<Rightarrow> string \<Rightarrow> int \<times> string \<Rightarrow> filesystem \<Rightarrow> error + filesystem" where
  "save_ios_icon E here e fs =
     (case e of (sz, filename) \<Rightarrow>
        let icon = create_app_icon E sz in write_file (ios_path here) filename (PNG icon) fs)"

definition save_android_icon :: "env \<Rightarrow> string \<Rightarrow> int \<times> string \<Rightarrow> filesystem \<Rightarrow> error + filesystem" where
  "save_android_icon E here e fs =
     (case e of (sz, folder) \<Rightarrow>
        let folder_path = path_join (android_path here) folder in
        and_then (makedirs folder_path fs) (\<lambda>fs.
          let icon = create_app_icon E sz in
          and_then (write_file folder_path ''ic_launcher.png'' (PNG icon) fs)
            (write_file folder_path ''ic_launcher_round.png'' (PNG icon))))"

text \<open>\<open>here\<close> is \<^verbatim>\<open>os.path.dirname(__file__)\<close>.\<close>

definition main :: "env \<Rightarrow> string \<Rightarrow> filesystem \<Rightarrow> error + filesystem" where
  "main E here fs =
     and_then (for_each (save_ios_icon E here) ios_sizes fs) (\<lambda>fs.
     and_then (write_file (ios_path here) ''Contents.json'' (JSON contents) fs)
       (for_each (save_android_icon E here) android_sizes))"

text \<open>Reading the parsed manifest: the value under a key of a JSON object.\<close>

fun json_get :: "string \<Rightarrow> json \<Rightarrow> json option" where
  "json_get k (JObject kvs) = map_of kvs k"
| "json_get k _ = None"

section \<open>What is assumed of floats and of the rasteriser\<close>

text \<open>
  The bounding box of a vertex list, the closed edges of the polygon through it, and the number
  of edges that a ray from a pixel to the right crosses.
\<close>

definition in_bbox :: "(int \<times> int) list \<Rightarrow> int \<Rightarrow> int \<Rightarrow> bool" where
  "in_bbox ps x y \<longleftrightarrow>
     list_ex (\<lambda>p. fst p \<le> x) ps \<and> list_ex (\<lambda>p. x \<le> fst p) ps \<and>
     list_ex (\<lambda>p. snd p \<le> y) ps \<and> list_ex (\<lambda>p. y \<le> snd p) ps"

definition edges :: "(int \<times> int) list \<Rightarrow> ((int \<times> int) \<times> (int \<times> int)) list" where
  "edges ps = zip ps (rotate1 ps)"

definition on_segment :: "int \<times> int \<Rightarrow> int \<times> int \<Rightarrow> int \<Rightarrow> int \<Rightarrow> bool" where
  "on_segment a b x y \<longleftrightarrow>
     (fst b - fst a) * (y - snd a) = (snd b - snd a) * (x - fst a) \<and>
     min (fst a) (fst b) \<le> x \<and> x \<le> max (fst a) (fst b) \<and>
     min (snd a) (snd b) \<le> y \<and> y \<le> max (snd a) (snd b)"

definition on_boundary :: "(int \<times> int) list \<Rightarrow> int \<Rightarrow> int \<Rightarrow> bool" where
  "on_boundary ps x y = list_ex (\<lambda>(a, b). on_segment a b x y) (edges ps)"

definition crosses :: "int \<times> int \<Rightarrow> int \<times> int \<Rightarrow> int \<Rightarrow> int \<Rightarrow> bool" where
  "crosses a b x y \<longleftrightarrow>
     ((snd a \<le> y \<and> y < snd b) \<or> (snd b \<le> y \<and> y < snd a)) \<and>
     real_of_int x <
       real_of_int (fst a) +
       real_of_int (y - snd a) * real_of_int (fst b - fst a) / real_of_int (snd b - snd a)"

definition crossings :: "(int \<times> int) list \<Rightarrow> int \<Rightarrow> int \<Rightarrow> nat" where
  "crossings ps x y = length (filter (\<lambda>(a, b). crosses a b x y) (edges ps))"

text \<open>
  Floats: rounding is monotone, off by at most one part in \<open>2 ^ 53\<close>, and exact on integers up to
  \<open>2 ^ 53\<close>; cosine and sine stay within \<open>[-1, 1]\<close>. This is binary64 arithmetic with the
  exponent range left unbounded: overflow and underflow are not modelled, and no operation of
  the script reaches them at a size an image can have.
\<close>

definition float_ok :: "env \<Rightarrow> bool" where
  "float_ok E \<longleftrightarrow>
     (\<forall>a b. a \<le> b \<longrightarrow> fl E a \<le> fl E b) \<and>
     (\<forall>a. \<bar>fl E a - a\<bar> \<le> \<bar>a\<bar> / 2 ^ 53) \<and>
     (\<forall>n::int. \<bar>n\<bar> \<le> 2 ^ 53 \<longrightarrow> fl E (of_int n) = of_int n) \<and>
     (\<forall>a. \<bar>fcos E a\<bar> \<le> 1 \<and> \<bar>fsin E a\<bar> \<le> 1)"

text \<open>
  Rasteriser: a filled polygon stays within the bounding box of its vertices, paints every
  vertex, and paints every pixel of the box from which a ray to the right crosses an odd number
  of edges; a pie slice in a square box of side \<open>d\<close> stays within the box and within one pixel
  of the circle of diameter \<open>d\<close> (written with doubled coordinates).
\<close>

definition raster_ok :: "env \<Rightarrow> bool" where
  "raster_ok E \<longleftrightarrow>
     (\<forall>ps x y. polygon_cover E ps x y \<longrightarrow> in_bbox ps x y) \<and>
     (\<forall>ps p. p \<in> set ps \<longrightarrow> polygon_cover E ps (fst p) (snd p)) \<and>
     (\<forall>ps x y. in_bbox ps x y \<and> odd (crossings ps x y) \<longrightarrow> polygon_cover E ps x y) \<and>
     (\<forall>bx by d s e x y. pieslice_cover E (bx, by) (bx + d, by + d) s e x y \<longrightarrow>
        rectangle_cover (bx, by) (bx + d, by + d) x y \<and>
        (2 * x - 2 * bx - d)\<^sup>2 + (2 * y - 2 * by - d)\<^sup>2 < (d + 2)\<^sup>2)"

text \<open>
  The mathematical library: cosine and sine are off by at most \<open>2 ^ -52\<close>, and halving a float
  is exact, as it is in binary floating point.
\<close>

definition trig_ok :: "env \<Rightarrow> bool" where
  "trig_ok E \<longleftrightarrow>
     (\<forall>a. \<bar>fcos E a - cos a\<bar> \<le> 1 / 2 ^ 52 \<and> \<bar>fsin E a - sin a\<bar> \<le> 1 / 2 ^ 52) \<and>
     fl E (1 / 2) = 1 / 2 \<and>
     (\<forall>a. fl E (fl E a / 2) = fl E a / 2)"

section \<open>Exact arithmetic and an exact rasteriser\<close>

text \<open>
  One environment that meets both assumptions: floats without rounding error, the closed disc
  for pie slices and joined corners, and the closed polygon under the even-odd rule.
\<close>

definition in_sector :: "int \<Rightarrow> int \<Rightarrow> int \<Rightarrow> int \<Rightarrow> bool" where
  "in_sector s e u v \<longleftrightarrow>
     0 \<le> real_of_int v * cos (real_of_int s * pi / 180) - real_of_int u * sin (real_of_int s * pi / 180) \<and>
     0 \<le> real_of_int u * sin (real_of_int e * pi / 180) - real_of_int v * cos (real_of_int e * pi / 180)"

definition in_ellipse :: "int \<times> int \<Rightarrow> int \<times> int \<Rightarrow> int \<Rightarrow> int \<Rightarrow> bool" where
  "in_ellipse p0 p1 x y \<longleftrightarrow>
     (let w = fst p1 - fst p0; h = snd p1 - snd p0;
          u = 2 * x - fst p0 - fst p1; v = 2 * y - snd p0 - snd p1
      in rectangle_cover p0 p1 x y \<and> u\<^sup>2 * h\<^sup>2 + v\<^sup>2 * w\<^sup>2 \<le> w\<^sup>2 * h\<^sup>2)"

definition exact_pieslice :: "int \<times> int \<Rightarrow> int \<times> int \<Rightarrow> int \<Rightarrow> int \<Rightarrow> int \<Rightarrow> int \<Rightarrow> bool" where
  "exact_pieslice p0 p1 s e x y \<longleftrightarrow>
     in_ellipse p0 p1 x y \<and> in_sector s e (2 * x - fst p0 - fst p1) (2 * y - snd p0 - snd p1)"

definition exact_polygon :: "(int \<times> int) list \<Rightarrow> int \<Rightarrow> int \<Rightarrow> bool" where
  "exact_polygon ps x y \<longleftrightarrow> in_bbox ps x y \<and> (on_boundary ps x y \<or> odd (crossings ps x y))"

definition exact :: env where
  "exact = \<lparr>fl = (\<lambda>a. a), fcos = cos, fsin = sin, pieslice_cover = exact_pieslice,
            joined_cover = (\<lambda>p0 p1 radius. in_ellipse p0 p1), polygon_cover = exact_polygon\<rparr>"

section \<open>Auxiliary notions for the proofs\<close>

definition binary_alpha :: "rgba image \<Rightarrow> bool" where
  "binary_alpha img \<longleftrightarrow> (\<forall>x y. alpha (px img x y) = 0 \<or> alpha (px img x y) = 255)"

text \<open>
  The paths \<^verbatim>\<open>main\<close> writes, the directories it asks for, and the paths that must not be
  regular files: those directories and every ancestor of a path the run touches. The run cannot
  fail when the icon-set directory exists, none of the files to write is a directory, and none
  of the latter paths is a regular file.
\<close>

definition file_targets :: "string \<Rightarrow> string list" where
  "file_targets here =
     map (\<lambda>(sz, filename). path_join (ios_path here) filename) ios_sizes @
     [path_join (ios_path here) ''Contents.json''] @
     concat (map (\<lambda>(sz, folder).
       [path_join (path_join (android_path here) folder) ''ic_launcher.png'',
        path_join (path_join (android_path here) folder) ''ic_launcher_round.png'']) android_sizes)"

definition folder_targets :: "string \<Rightarrow> string list" where
  "folder_targets here = map (\<lambda>(sz, folder). path_join (android_path here) folder) android_sizes"

definition blocked :: "string \<Rightarrow> string list" where
  "blocked here =
     folder_targets here @ concat (map ancestors (file_targets here @ folder_targets here))"

definition can_run :: "string \<Rightarrow> filesystem \<Rightarrow> bool" where
  "can_run here fs \<longleftrightarrow>
     ios_path here \<in> dirs fs \<and>
     list_all (\<lambda>p. p \<notin> dirs fs) (file_targets here) \<and>
     list_all (\<lambda>p. p \<notin> dom (files fs)) (blocked here)"

text \<open>
  While the run goes on, directories are only added, and only among the paths \<open>B\<close>, and files
  are only added among the paths \<open>W\<close>. The run stays clear of trouble when no path of \<open>B\<close> is
  written or was a file, and no path of \<open>W\<close> was a directory.
\<close>

definition grown :: "string set \<Rightarrow> string set \<Rightarrow> filesystem \<Rightarrow> filesystem \<Rightarrow> bool" where
  "grown W B fs0 fs \<longleftrightarrow>
     dirs fs0 \<subseteq> dirs fs \<and> dirs fs \<subseteq> dirs fs0 \<union> B \<and> dom (files fs) \<subseteq> dom (files fs0) \<union> W"

definition clear :: "string set \<Rightarrow> string set \<Rightarrow> filesystem \<Rightarrow> bool" where
  "clear W B fs0 \<longleftrightarrow> B \<inter> W = {} \<and> B \<inter> dom (files fs0) = {} \<and> W \<inter> dirs fs0 = {}"

text \<open>What the manifest promises of one entry of its image list.\<close>

definition entry_ok :: "json \<Rightarrow> bool" where
  "entry_ok e \<longleftrightarrow>
     (\<exists>s f. json_get ''size'' e = Some (JString s) \<and> json_get ''filename'' e = Some (JString f)) \<and>
     json_get ''idiom'' e \<in> {Some (JString ''iphone''), Some (JString ''ios-marketing'')} \<and>
     json_get ''scale'' e \<in> {Some (JString ''1x''), Some (JString ''2x''), Some (JString ''3x'')}"

text \<open>What one round of the Android loop leaves behind, and the paths it touches.\<close>

definition android_ok :: "env \<Rightarrow> string \<Rightarrow> filesystem \<Rightarrow> int \<times> string \<Rightarrow> bool" where
  "android_ok E here fs e =
     (case e of (sz, folder) \<Rightarrow>
        let d = path_join (android_path here) folder in
        d \<in> dirs fs \<and>
        files fs (path_join d ''ic_launcher.png'') = Some (PNG (create_app_icon E sz)) \<and>
        files fs (path_join d ''ic_launcher_round.png'') = Some (PNG (create_app_icon E sz)))"

definition android_dir :: "string \<Rightarrow> int \<times> string \<Rightarrow> string" where
  "android_dir here e = path_join (android_path here) (snd e)"

definition android_files :: "string \<Rightarrow> int \<times> string \<Rightarrow> string list" where
  "android_files here e =
     [path_join (android_dir here e) ''ic_launcher.png'',
      path_join (android_dir here e) ''ic_launcher_round.png'']"

text \<open>A project tree in which only the icon-set directory exists, with the script in \<^verbatim>\<open>scripts\<close>.\<close>

definition fresh_tree :: filesystem where
  "fresh_tree = \<lparr>dirs = {ios_path ''scripts''}, files = Map.empty\<rparr>"

text \<open>The pixels that the tent, the opening and the stars paint.\<close>

definition tent_cover :: "env \<Rightarrow> int \<Rightarrow> int \<Rightarrow> int \<Rightarrow> bool" where
  "tent_cover E sz x y = polygon_cover E (int_points (float_points (tent_points E sz))) x y"

definition opening_cover :: "env \<Rightarrow> int \<Rightarrow> int \<Rightarrow> int \<Rightarrow> bool" where
  "opening_cover E sz x y = polygon_cover E (int_points (float_points (opening_points E sz))) x y"

definition one_star_cover :: "env \<Rightarrow> real \<times> real \<times> real \<Rightarrow> int \<Rightarrow> int \<Rightarrow> bool" where
  "one_star_cover E s x y =
     (case s of (cx, cy, radius) \<Rightarrow> polygon_cover E (int_points (star_points E cx cy radius)) x y)"

definition star_cover :: "env \<Rightarrow> int \<Rightarrow> int \<Rightarrow> int \<Rightarrow> bool" where
  "star_cover E sz x y = list_ex (\<lambda>s. one_star_cover E s x y) (star_positions E sz)"

text \<open>The footprint of the rounded mask on the canvas.\<close>

definition footprint :: "env \<Rightarrow> int \<Rightarrow> int \<Rightarrow> int \<Rightarrow> bool" where
  "footprint E sz x y = rounded_rectangle_cover E (0, 0) (sz, sz) (corner_radius sz) x y"

section \<open>The exact environment meets the assumptions\<close>

lemma exact_float_ok: "float_ok exact"
  by (simp add: float_ok_def exact_def)

lemma in_bbox_mem: "p \<in> set ps \<Longrightarrow> in_bbox ps (fst p) (snd p)"
  by (auto simp: in_bbox_def list_ex_iff)

lemma vertex_on_boundary: "p \<in> set ps \<Longrightarrow> on_boundary ps (fst p) (snd p)"
proof -
  assume "p \<in> set ps"
  then obtain i where i: "i < length ps" "ps ! i = p" by (auto simp: in_set_conv_nth)
  then have "(p, rotate1 ps ! i) \<in> set (edges ps)"
    unfolding edges_def by (auto simp: in_set_zip intro!: exI[of _ i])
  moreover have "on_segment p q (fst p) (snd p)" for q
    by (simp add: on_segment_def)
  ultimately show ?thesis
    unfolding on_boundary_def list_ex_iff by (intro bexI[of _ "(p, rotate1 ps ! i)"]) simp_all
qed

lemma exact_raster_ok: "raster_ok exact"
  unfolding raster_ok_def
proof (intro conjI allI impI)
  fix bx by' d s e x y
  assume "pieslice_cover exact (bx, by') (bx + d, by' + d) s e x y"
  then have a: "rectangle_cover (bx, by') (bx + d, by' + d) x y"
    and b: "(2 * x - 2 * bx - d)\<^sup>2 * d\<^sup>2 + (2 * y - 2 * by' - d)\<^sup>2 * d\<^sup>2 \<le> d\<^sup>2 * d\<^sup>2"
    by (simp_all add: exact_def exact_pieslice_def in_ellipse_def Let_def algebra_simps)
  show "rectangle_cover (bx, by') (bx + d, by' + d) x y" by (rule a)
  show "(2 * x - 2 * bx - d)\<^sup>2 + (2 * y - 2 * by' - d)\<^sup>2 < (d + 2)\<^sup>2"
  proof (cases "d = 0")
    case True
    with a have "x = bx" "y = by'" by (simp_all add: rectangle_cover_def)
    with True show ?thesis by simp
  next
    case False
    from a have d0: "0 \<le> d" by (simp add: rectangle_cover_def)
    with False have "0 < d\<^sup>2" by simp
    from b have "((2 * x - 2 * bx - d)\<^sup>2 + (2 * y - 2 * by' - d)\<^sup>2) * d\<^sup>2 \<le> d\<^sup>2 * d\<^sup>2"
      by (simp add: algebra_simps)
    then have "(2 * x - 2 * bx - d)\<^sup>2 + (2 * y - 2 * by' - d)\<^sup>2 \<le> d\<^sup>2"
      using \<open>0 < d\<^sup>2\<close> by (rule mult_right_le_imp_le)
    also have "d\<^sup>2 < (d + 2)\<^sup>2" using d0 by (simp add: power2_eq_square algebra_simps)
    finally show ?thesis .
  qed
qed (auto simp: exact_def exact_polygon_def in_bbox_mem vertex_on_boundary)

section \<open>Facts about drawing\<close>

lemma paint_size [simp]:
  "width (paint cover c img) = width img" "height (paint cover c img) = height img"
  by (simp_all add: paint_def)

lemma paint_px:
  "px (paint cover c img) x y = (if in_image img x y \<and> cover x y then c else px img x y)"
  by (simp add: paint_def)

lemma in_image_paint [simp]: "in_image (paint cover c img) x y = in_image img x y"
  by (simp add: in_image_def)

lemma py_int_of_int [simp]: "py_int (real_of_int n) = n"
  by (simp add: py_int_def)

lemma py_int_mono: "a \<le> b \<Longrightarrow> py_int a \<le> py_int b"
proof -
  assume ab: "a \<le> b"
  have "\<lceil>a\<rceil> \<le> \<lfloor>b\<rfloor>" if "a < 0" "0 \<le> b"
  proof -
    from that have "\<lceil>a\<rceil> \<le> 0" by (simp add: ceiling_le_zero)
    moreover from that have "0 \<le> \<lfloor>b\<rfloor>" by simp
    ultimately show ?thesis by linarith
  qed
  with ab show ?thesis
    by (auto simp: py_int_def intro: floor_mono ceiling_mono)
qed

section \<open>Facts about the gradient loop\<close>

lemma gradient_row_size [simp]:
  "width (gradient_row E sz y img) = width img" "height (gradient_row E sz y img) = height img"
  by (simp_all add: gradient_row_def rectangle_def)

lemma fold_gradient_row_size [simp]:
  "width (fold (gradient_row E sz) ys img) = width img"
  "height (fold (gradient_row E sz) ys img) = height img"
  by (induction ys arbitrary: img) simp_all

lemma gradient_row_px:
  "px (gradient_row E sz y img) x v =
     (if in_image img x v \<and> 0 \<le> x \<and> x \<le> sz \<and> y \<le> v \<and> v \<le> y + 1
      then gradient_color E sz y else px img x v)"
  by (simp add: gradient_row_def rectangle_def paint_def rectangle_cover_def)

lemma gradient_rows_px:
  assumes "width img = sz" "height img = sz" "0 \<le> x" "x < sz" "0 \<le> y" "y < int n" "int n \<le> sz"
  shows "px (fold (gradient_row E sz) (map int [0..<n]) img) x y = gradient_color E sz y"
  using assms
proof (induction n arbitrary: y)
  case 0
  then show ?case by simp
next
  case (Suc n)
  show ?case
  proof (cases "y = int n")
    case True
    with Suc.prems show ?thesis
      by (simp add: gradient_row_px in_image_def)
  next
    case False
    with Suc.prems have "y < int n" by simp
    with Suc have "px (fold (gradient_row E sz) (map int [0..<n]) img) x y = gradient_color E sz y"
      by simp
    with \<open>y < int n\<close> show ?thesis
      by (simp add: gradient_row_px)
  qed
qed

lemma gradient_background_size [simp]:
  "width (gradient_background E sz) = sz" "height (gradient_background E sz) = sz"
  by (simp_all add: gradient_background_def Image_new_def)

lemma gradient_background_px:
  assumes "0 \<le> x" "x < sz" "0 \<le> y" "y < sz"
  shows "px (gradient_background E sz) x y = gradient_color E sz y"
  unfolding gradient_background_def
  using assms by (intro gradient_rows_px) (simp_all add: Image_new_def)

section \<open>Facts about float arithmetic\<close>

lemma fl_int:
  assumes "float_ok E" "\<bar>n\<bar> \<le> 2 ^ 53"
  shows "fl E (of_int n) = of_int n"
  using assms by (simp add: float_ok_def)

lemma fl_mono: "float_ok E \<Longrightarrow> a \<le> b \<Longrightarrow> fl E a \<le> fl E b"
  by (simp add: float_ok_def)

lemma fl_numeral [simp]:
  assumes "float_ok E"
  shows "fl E 0 = 0" "fl E 1 = 1" "fl E 63 = 63" "fl E 48 = 48" "fl E 81 = 81"
    "fl E 181 = 181" "fl E 159 = 159" "fl E (- 15) = - 15" "fl E (- 18) = - 18" "fl E (- 22) = - 22"
  using fl_int [OF assms, of 0] fl_int [OF assms, of 1] fl_int [OF assms, of 63]
    fl_int [OF assms, of 48] fl_int [OF assms, of 81] fl_int [OF assms, of 181]
    fl_int [OF assms, of 159] fl_int [OF assms, of "- 15"] fl_int [OF assms, of "- 18"]
    fl_int [OF assms, of "- 22"]
  by simp_all

lemma ratio_mono:
  assumes "float_ok E" "0 < sz" "y1 \<le> y2"
  shows "fdiv E (of_int y1) (of_int sz) \<le> fdiv E (of_int y2) (of_int sz)"
  unfolding fdiv_def using assms by (intro fl_mono) (simp_all add: divide_right_mono)

lemma ratio_range:
  assumes "float_ok E" "0 < sz" "0 \<le> y" "y < sz"
  shows "0 \<le> fdiv E (of_int y) (of_int sz)" "fdiv E (of_int y) (of_int sz) \<le> 1"
proof -
  have "fl E 0 \<le> fl E (of_int y / of_int sz)" using assms by (intro fl_mono) simp_all
  then show "0 \<le> fdiv E (of_int y) (of_int sz)" using assms by (simp add: fdiv_def)
  have "fl E (of_int y / of_int sz) \<le> fl E 1" using assms by (intro fl_mono) simp_all
  then show "fdiv E (of_int y) (of_int sz) \<le> 1" using assms by (simp add: fdiv_def)
qed

text \<open>One channel: \<open>int(top + (bottom - top) * ratio)\<close> with \<open>bottom \<le> top\<close>.\<close>

lemma channel_antimono:
  assumes "float_ok E" "d \<le> 0" "s \<le> t"
  shows "py_int (fadd E c (fmul E d t)) \<le> py_int (fadd E c (fmul E d s))"
proof -
  from assms have "d * t \<le> d * s" by (simp add: mult_left_mono_neg)
  then have "fl E (d * t) \<le> fl E (d * s)" using assms(1) by (rule fl_mono[rotated])
  then have "fl E (c + fl E (d * t)) \<le> fl E (c + fl E (d * s))"
    using assms(1) by (intro fl_mono) simp_all
  then show ?thesis unfolding fadd_def fmul_def by (rule py_int_mono)
qed

lemma channel_range:
  assumes "float_ok E" "\<bar>hi\<bar> \<le> 2 ^ 53" "\<bar>lo\<bar> \<le> 2 ^ 53" "\<bar>lo - hi\<bar> \<le> 2 ^ 53"
    "lo \<le> hi" "0 \<le> t" "t \<le> 1"
  shows "lo \<le> py_int (fadd E (of_int hi) (fmul E (of_int (lo - hi)) t))"
    "py_int (fadd E (of_int hi) (fmul E (of_int (lo - hi)) t)) \<le> hi"
proof -
  have d: "real_of_int (lo - hi) \<le> 0" using assms by simp
  have "py_int (fadd E (of_int hi) (fmul E (of_int (lo - hi)) 1))
        \<le> py_int (fadd E (of_int hi) (fmul E (of_int (lo - hi)) t))"
    using assms(1) d assms(7) by (rule channel_antimono)
  moreover have "fadd E (of_int hi) (fmul E (of_int (lo - hi)) 1) = of_int lo"
    using fl_int [OF assms(1,4)] fl_int [OF assms(1,3)] by (simp add: fadd_def fmul_def)
  ultimately show "lo \<le> py_int (fadd E (of_int hi) (fmul E (of_int (lo - hi)) t))"
    by simp
  have "py_int (fadd E (of_int hi) (fmul E (of_int (lo - hi)) t))
        \<le> py_int (fadd E (of_int hi) (fmul E (of_int (lo - hi)) 0))"
    using assms(1) d assms(6) by (rule channel_antimono)
  moreover have "fadd E (of_int hi) (fmul E (of_int (lo - hi)) 0) = of_int hi"
    using fl_int [OF assms(1,2)] fl_int [OF assms(1), of 0] by (simp add: fadd_def fmul_def)
  ultimately show "py_int (fadd E (of_int hi) (fmul E (of_int (lo - hi)) t)) \<le> hi"
    by simp
qed

lemma gradient_color_mono:
  assumes "float_ok E" "0 < sz" "y1 \<le> y2"
  shows "red (gradient_color E sz y2) \<le> red (gradient_color E sz y1)"
    "green (gradient_color E sz y2) \<le> green (gradient_color E sz y1)"
    "blue (gradient_color E sz y2) \<le> blue (gradient_color E sz y1)"
  using channel_antimono [OF assms(1) _ ratio_mono [OF assms], of "- 15" 63]
    channel_antimono [OF assms(1) _ ratio_mono [OF assms], of "- 18" 81]
    channel_antimono [OF assms(1) _ ratio_mono [OF assms], of "- 22" 181]
  by (simp_all add: gradient_color_def Let_def red_def green_def blue_def)

lemma gradient_color_range:
  assumes "float_ok E" "0 < sz" "0 \<le> y" "y < sz"
  shows "48 \<le> red (gradient_color E sz y)" "red (gradient_color E sz y) \<le> 63"
    "63 \<le> green (gradient_color E sz y)" "green (gradient_color E sz y) \<le> 81"
    "159 \<le> blue (gradient_color E sz y)" "blue (gradient_color E sz y) \<le> 181"
  using channel_range [OF assms(1) _ _ _ _ ratio_range [OF assms], of 63 48]
    channel_range [OF assms(1) _ _ _ _ ratio_range [OF assms], of 81 63]
    channel_range [OF assms(1) _ _ _ _ ratio_range [OF assms], of 181 159]
  by (simp_all add: gradient_color_def Let_def red_def green_def blue_def)

section \<open>Facts about the renderer\<close>

lemma polygon_size [simp]:
  "width (polygon E ps c img) = width img" "height (polygon E ps c img) = height img"
  by (simp_all add: polygon_def)

lemma draw_star_size [simp]:
  "width (draw_star E s img) = width img" "height (draw_star E s img) = height img"
  by (simp_all add: draw_star_def split: prod.splits)

lemma fold_draw_star_size [simp]:
  "width (fold (draw_star E) ss img) = width img"
  "height (fold (draw_star E) ss img) = height img"
  by (induction ss arbitrary: img) simp_all

lemma rounded_mask_px:
  "px (rounded_mask E sz) x y =
     (if 0 \<le> x \<and> x < sz \<and> 0 \<le> y \<and> y < sz \<and>
         rounded_rectangle_cover E (0, 0) (sz, sz) (corner_radius sz) x y then 255 else 0)"
  by (simp add: rounded_mask_def rounded_rectangle_def paint_px in_image_def Image_new_def)

lemma masked_background_size [simp]:
  "width (masked_background E sz) = sz" "height (masked_background E sz) = sz"
  by (simp_all add: masked_background_def putalpha_def paste_def Image_new_def Let_def)

lemma masked_background_px:
  "px (masked_background E sz) x y =
     (if 0 \<le> x \<and> x < sz \<and> 0 \<le> y \<and> y < sz
      then (red (gradient_color E sz y), green (gradient_color E sz y), blue (gradient_color E sz y),
            if rounded_rectangle_cover E (0, 0) (sz, sz) (corner_radius sz) x y then 255 else 0)
      else (0, 0, 0, 0))"
  by (simp add: masked_background_def putalpha_def paste_def Image_new_def in_image_def Let_def
      gradient_background_px rounded_mask_px red_def green_def blue_def split: prod.splits)

lemma create_app_icon_size [simp]:
  "width (create_app_icon E sz) = sz" "height (create_app_icon E sz) = sz"
  by (simp_all add: create_app_icon_def)

lemma binary_alpha_paint:
  "binary_alpha img \<Longrightarrow> alpha c = 255 \<Longrightarrow> binary_alpha (paint cover c img)"
  by (simp add: binary_alpha_def paint_px)

lemma binary_alpha_polygon:
  "binary_alpha img \<Longrightarrow> alpha c = 255 \<Longrightarrow> binary_alpha (polygon E ps c img)"
  by (simp add: polygon_def binary_alpha_paint)

lemma binary_alpha_stars:
  "binary_alpha img \<Longrightarrow> binary_alpha (fold (draw_star E) ss img)"
  by (induction ss arbitrary: img)
    (simp_all add: draw_star_def binary_alpha_polygon alpha_def split: prod.splits)

lemma binary_alpha_masked: "binary_alpha (masked_background E sz)"
  by (simp add: binary_alpha_def masked_background_px alpha_def)

lemma binary_alpha_icon: "binary_alpha (create_app_icon E sz)"
  by (simp add: create_app_icon_def binary_alpha_stars binary_alpha_polygon binary_alpha_masked
      alpha_def)

section \<open>Facts about the driver\<close>

lemma path_join_prefix:
  "\<exists>P. \<forall>b. b \<noteq> [] \<longrightarrow> hd b \<noteq> CHR ''/'' \<longrightarrow> path_join here b = P @ b"
proof (cases "here = [] \<or> last here = CHR ''/''")
  case True
  then have "\<forall>b. b \<noteq> [] \<longrightarrow> hd b \<noteq> CHR ''/'' \<longrightarrow> path_join here b = here @ b"
    by (simp add: path_join_def)
  then show ?thesis ..
next
  case False
  then have "\<forall>b. b \<noteq> [] \<longrightarrow> hd b \<noteq> CHR ''/'' \<longrightarrow> path_join here b = (here @ ''/'') @ b"
    by (simp add: path_join_def)
  then show ?thesis ..
qed

lemma path_join_under:
  "a \<noteq> [] \<Longrightarrow> last a \<noteq> CHR ''/'' \<Longrightarrow> b \<noteq> [] \<Longrightarrow> hd b \<noteq> CHR ''/'' \<Longrightarrow>
   path_join a b = a @ ''/'' @ b"
  by (simp add: path_join_def)

lemma set_ancestors_from:
  "set (ancestors_from acc cs) = {acc @ a | a r. cs = a @ CHR ''/'' # r \<and> acc @ a \<noteq> []}"
proof (induction cs arbitrary: acc)
  case Nil
  then show ?case by simp
next
  case (Cons c cs)
  have "{acc @ a | a r. c # cs = a @ CHR ''/'' # r \<and> acc @ a \<noteq> []} =
      (if c = CHR ''/'' \<and> acc \<noteq> [] then {acc} else {}) \<union>
      {(acc @ [c]) @ a | a r. cs = a @ CHR ''/'' # r \<and> (acc @ [c]) @ a \<noteq> []}"
    (is "?L = ?R")
  proof (intro set_eqI iffI)
    fix z assume "z \<in> ?L"
    then obtain a r where z: "z = acc @ a" "c # cs = a @ CHR ''/'' # r" "acc @ a \<noteq> []" by blast
    show "z \<in> ?R"
    proof (cases a)
      case Nil
      with z show ?thesis by auto
    next
      case (Cons a0 a')
      with z have "cs = a' @ CHR ''/'' # r" "z = (acc @ [c]) @ a'" by auto
      then show ?thesis by auto
    qed
  next
    fix z assume "z \<in> ?R"
    then consider "c = CHR ''/''" "acc \<noteq> []" "z = acc"
      | a r where "z = (acc @ [c]) @ a" "cs = a @ CHR ''/'' # r"
      by (auto split: if_splits)
    then show "z \<in> ?L"
    proof cases
      case 1
      then have "z = acc @ []" "c # cs = [] @ CHR ''/'' # cs" "acc @ [] \<noteq> []" by simp_all
      then show ?thesis by blast
    next
      case 2
      then have "z = acc @ (c # a)" "c # cs = (c # a) @ CHR ''/'' # r" "acc @ (c # a) \<noteq> []" by simp_all
      then show ?thesis by blast
    qed
  qed
  then have eq: "?R = ?L" by (rule sym)
  have "set (ancestors_from acc (c # cs)) =
      (if c = CHR ''/'' \<and> acc \<noteq> [] then {acc} else {}) \<union> set (ancestors_from (acc @ [c]) cs)"
    by auto
  also have "\<dots> = ?R" by (simp only: Cons.IH)
  also note eq
  finally show ?case .
qed

lemma in_ancestors: "a \<in> set (ancestors p) \<longleftrightarrow> a \<noteq> [] \<and> (\<exists>r. p = a @ CHR ''/'' # r)"
  unfolding ancestors_def set_ancestors_from by auto

lemma write_step:
  assumes "clear W B fs0" "grown W B fs0 fs" "d \<in> dirs fs" "path_join d n \<in> W"
    "set (ancestors (path_join d n)) \<subseteq> B"
  shows "write_file d n c fs = Inr (fs\<lparr>files := (files fs)(path_join d n \<mapsto> c)\<rparr>)"
    "grown W B fs0 (fs\<lparr>files := (files fs)(path_join d n \<mapsto> c)\<rparr>)"
proof -
  have a: "\<not> list_ex (\<lambda>a. a \<in> dom (files fs)) (ancestors (path_join d n))"
    using assms(1,2,5) unfolding list_ex_iff clear_def grown_def by blast
  have b: "path_join d n \<notin> dirs fs"
    using assms(1,2,4) unfolding clear_def grown_def by blast
  show "write_file d n c fs = Inr (fs\<lparr>files := (files fs)(path_join d n \<mapsto> c)\<rparr>)"
    using a b assms(3) by (simp add: write_file_def)
  show "grown W B fs0 (fs\<lparr>files := (files fs)(path_join d n \<mapsto> c)\<rparr>)"
    using assms(2,4) unfolding grown_def by auto
qed

lemma mkdir_step:
  assumes "clear W B fs0" "grown W B fs0 fs" "p \<in> B" "set (ancestors p) \<subseteq> B"
  shows "makedirs p fs = Inr (fs\<lparr>dirs := dirs fs \<union> set (ancestors p) \<union> {p}\<rparr>)"
    "grown W B fs0 (fs\<lparr>dirs := dirs fs \<union> set (ancestors p) \<union> {p}\<rparr>)"
proof -
  have a: "\<not> list_ex (\<lambda>a. a \<in> dom (files fs)) (ancestors p)"
    using assms(1,2,4) unfolding list_ex_iff clear_def grown_def by blast
  have b: "p \<notin> dom (files fs)"
    using assms(1,2,3) unfolding clear_def grown_def by blast
  show "makedirs p fs = Inr (fs\<lparr>dirs := dirs fs \<union> set (ancestors p) \<union> {p}\<rparr>)"
    using a b by (simp add: makedirs_def)
  show "grown W B fs0 (fs\<lparr>dirs := dirs fs \<union> set (ancestors p) \<union> {p}\<rparr>)"
    using assms(2,3,4) unfolding grown_def by auto
qed

lemma ios_loop:
  assumes "clear W B fs0" "grown W B fs0 fs" "ios_path here \<in> dirs fs"
    "\<forall>e \<in> set xs. path_join (ios_path here) (snd e) \<in> W \<and>
       set (ancestors (path_join (ios_path here) (snd e))) \<subseteq> B"
  shows "\<exists>fs1. for_each (save_ios_icon E here) xs fs = Inr fs1 \<and> grown W B fs0 fs1 \<and>
     dirs fs1 = dirs fs"
  using assms(2-)
proof (induction xs arbitrary: fs)
  case Nil
  then show ?case by simp
next
  case (Cons e xs)
  obtain sz f where e: "e = (sz, f)" by (cases e)
  let ?fs = "fs\<lparr>files := (files fs)(path_join (ios_path here) f \<mapsto> PNG (create_app_icon E sz))\<rparr>"
  have t: "path_join (ios_path here) f \<in> W" "set (ancestors (path_join (ios_path here) f)) \<subseteq> B"
    using Cons.prems(3) e by auto
  note w = write_step [OF assms(1) Cons.prems(1,2) t, of "PNG (create_app_icon E sz)"]
  have step: "save_ios_icon E here (sz, f) fs = Inr ?fs"
    using w(1) by (simp add: save_ios_icon_def)
  have "\<exists>fs1. for_each (save_ios_icon E here) xs ?fs = Inr fs1 \<and> grown W B fs0 fs1 \<and>
     dirs fs1 = dirs ?fs"
    using Cons.prems w(2) by (intro Cons.IH) simp_all
  then show ?case
    by (auto simp: step and_then_def e)
qed

lemma android_step:
  fixes E :: env
  assumes "clear W B fs0" "grown W B fs0 fs" "android_dir here e \<in> B"
    "set (ancestors (android_dir here e)) \<subseteq> B"
    "\<forall>p \<in> set (android_files here e). p \<in> W \<and> set (ancestors p) \<subseteq> B"
  defines "fs' \<equiv> fs\<lparr>dirs := dirs fs \<union> set (ancestors (android_dir here e)) \<union> {android_dir here e},
              files := (files fs)
                (path_join (android_dir here e) ''ic_launcher.png'' \<mapsto> PNG (create_app_icon E (fst e)),
                 path_join (android_dir here e) ''ic_launcher_round.png'' \<mapsto> PNG (create_app_icon E (fst e)))\<rparr>"
  shows "save_android_icon E here e fs = Inr fs'" "grown W B fs0 fs'"
proof -
  let ?d = "android_dir here e"
  let ?icon = "PNG (create_app_icon E (fst e))"
  let ?fs1 = "fs\<lparr>dirs := dirs fs \<union> set (ancestors ?d) \<union> {?d}\<rparr>"
  let ?fs2 = "?fs1\<lparr>files := (files ?fs1)(path_join ?d ''ic_launcher.png'' \<mapsto> ?icon)\<rparr>"
  let ?fs3 = "?fs2\<lparr>files := (files ?fs2)(path_join ?d ''ic_launcher_round.png'' \<mapsto> ?icon)\<rparr>"
  note m = mkdir_step [OF assms(1,2,3,4)]
  have f: "path_join ?d ''ic_launcher.png'' \<in> W" "set (ancestors (path_join ?d ''ic_launcher.png'')) \<subseteq> B"
    "path_join ?d ''ic_launcher_round.png'' \<in> W"
    "set (ancestors (path_join ?d ''ic_launcher_round.png'')) \<subseteq> B"
    using assms(5) by (simp_all add: android_files_def)
  have d1: "?d \<in> dirs ?fs1" by simp
  note w1 = write_step [OF assms(1) m(2) d1 f(1,2), of ?icon]
  have d2: "?d \<in> dirs ?fs2" by simp
  note w2 = write_step [OF assms(1) w1(2) d2 f(3,4), of ?icon]
  have eq: "?fs3 = fs'" unfolding fs'_def by simp
  show "save_android_icon E here e fs = Inr fs'"
    using m(1) w1(1) w2(1) unfolding eq [symmetric]
    by (cases e) (simp add: save_android_icon_def android_dir_def and_then_def Let_def)
  show "grown W B fs0 fs'" using w2(2) unfolding eq .
qed

lemma android_loop:
  assumes "clear W B fs0" "grown W B fs0 fs"
    "\<forall>e \<in> set xs. android_dir here e \<in> B \<and> set (ancestors (android_dir here e)) \<subseteq> B \<and>
       (\<forall>p \<in> set (android_files here e). p \<in> W \<and> set (ancestors p) \<subseteq> B)"
    "distinct (concat (map (android_files here) xs))"
  shows "\<exists>fs'. for_each (save_android_icon E here) xs fs = Inr fs' \<and>
     list_all (android_ok E here fs') xs \<and> dirs fs \<subseteq> dirs fs' \<and>
     (\<forall>p. p \<notin> set (concat (map (android_files here) xs)) \<longrightarrow> files fs' p = files fs p)"
  using assms(2-)
proof (induction xs arbitrary: fs)
  case Nil
  then show ?case by simp
next
  case (Cons e xs)
  let ?d = "android_dir here e"
  let ?f1 = "path_join ?d ''ic_launcher.png''"
  let ?f2 = "path_join ?d ''ic_launcher_round.png''"
  let ?icon = "PNG (create_app_icon E (fst e))"
  let ?fs = "fs\<lparr>dirs := dirs fs \<union> set (ancestors ?d) \<union> {?d}, files := (files fs)(?f1 \<mapsto> ?icon, ?f2 \<mapsto> ?icon)\<rparr>"
  have e: "android_dir here e \<in> B" "set (ancestors (android_dir here e)) \<subseteq> B"
    "\<forall>p \<in> set (android_files here e). p \<in> W \<and> set (ancestors p) \<subseteq> B"
    using Cons.prems(2) by simp_all
  note st = android_step [OF assms(1) Cons.prems(1) e, where E = E]
  have "\<exists>fs'. for_each (save_android_icon E here) xs ?fs = Inr fs' \<and>
     list_all (android_ok E here fs') xs \<and> dirs ?fs \<subseteq> dirs fs' \<and>
     (\<forall>p. p \<notin> set (concat (map (android_files here) xs)) \<longrightarrow> files fs' p = files ?fs p)"
    using st(2) Cons.prems(2,3) by (intro Cons.IH) simp_all
  then obtain fs' where fs': "for_each (save_android_icon E here) xs ?fs = Inr fs'"
    "list_all (android_ok E here fs') xs" "dirs ?fs \<subseteq> dirs fs'"
    "\<And>p. p \<notin> set (concat (map (android_files here) xs)) \<Longrightarrow> files fs' p = files ?fs p"
    by blast
  have out: "?f1 \<notin> set (concat (map (android_files here) xs))"
    "?f2 \<notin> set (concat (map (android_files here) xs))" "?f1 \<noteq> ?f2"
    using Cons.prems(3) by (auto simp: android_files_def)
  have "android_ok E here fs' e"
    using fs'(3) fs'(4) [OF out(1)] fs'(4) [OF out(2)] out(3)
    by (cases e) (auto simp: android_ok_def android_dir_def Let_def)
  moreover have "files fs' p = files fs p"
    if "p \<notin> set (concat (map (android_files here) (e # xs)))" for p
    using that fs'(4) [of p] by (auto simp: android_files_def)
  ultimately show ?case
    using fs'(1,2,3) by (auto simp: st(1) and_then_def)
qed

lemma ancestors_blocked:
  assumes "t \<in> set (file_targets here) \<union> set (folder_targets here)"
  shows "set (ancestors t) \<subseteq> set (blocked here)"
  using assms by (auto simp: blocked_def)

lemma folder_blocked:
  assumes "t \<in> set (folder_targets here)"
  shows "t \<in> set (blocked here)"
  using assms by (simp add: blocked_def)

lemma main_final:
  assumes "can_run here fs"
  shows "\<exists>fs'. main E here fs = Inr fs' \<and>
     files fs' (path_join (ios_path here) ''Contents.json'') = Some (JSON contents) \<and>
     list_all (android_ok E here fs') android_sizes"
proof -
  obtain P where P: "\<And>b. b \<noteq> [] \<Longrightarrow> hd b \<noteq> CHR ''/'' \<Longrightarrow> path_join here b = P @ b"
    using path_join_prefix [of here] by blast
  define I where "I = ios_path here"
  define A where "A = android_path here"
  define W where "W = set (file_targets here)"
  define B where "B = set (blocked here)"
  have I: "I = P @ ''../ios/KidsCampTracker/Images.xcassets/AppIcon.appiconset''"
    by (simp add: I_def ios_path_def P)
  have A: "A = P @ ''../android/app/src/main/res''"
    by (simp add: A_def android_path_def P)
  have cross: "I @ s \<noteq> A @ t" for s t
    by (simp add: I A)
  have joinI: "path_join I b = I @ ''/'' @ b" if "b \<noteq> []" "hd b \<noteq> CHR ''/''" for b
    using that by (intro path_join_under) (simp_all add: I)
  have joinA: "path_join A b = A @ ''/'' @ b" if "b \<noteq> []" "hd b \<noteq> CHR ''/''" for b
    using that by (intro path_join_under) (simp_all add: A)
  have joinA2: "path_join (A @ g) b = A @ g @ ''/'' @ b"
    if "b \<noteq> []" "hd b \<noteq> CHR ''/''" "g \<noteq> []" "last g \<noteq> CHR ''/''" for b g
    using that by (simp add: path_join_def)
  define isuf where "isuf = [''/icon-40.png'', ''/icon-60.png'', ''/icon-58.png'', ''/icon-87.png'',
      ''/icon-80.png'', ''/icon-120.png'', ''/icon-180.png'', ''/icon-1024.png'', ''/Contents.json'']"
  define dsuf where "dsuf = [''/mipmap-mdpi'', ''/mipmap-hdpi'', ''/mipmap-xhdpi'', ''/mipmap-xxhdpi'',
      ''/mipmap-xxxhdpi'']"
  define fsuf where "fsuf = [''/mipmap-mdpi/ic_launcher.png'', ''/mipmap-mdpi/ic_launcher_round.png'',
         ''/mipmap-hdpi/ic_launcher.png'', ''/mipmap-hdpi/ic_launcher_round.png'',
         ''/mipmap-xhdpi/ic_launcher.png'', ''/mipmap-xhdpi/ic_launcher_round.png'',
         ''/mipmap-xxhdpi/ic_launcher.png'', ''/mipmap-xxhdpi/ic_launcher_round.png'',
         ''/mipmap-xxxhdpi/ic_launcher.png'', ''/mipmap-xxxhdpi/ic_launcher_round.png'']"
  have dirA: "map (android_dir here) android_sizes = map (\<lambda>s. A @ s) dsuf"
    by (simp add: android_sizes_def android_dir_def A_def [symmetric] joinA dsuf_def)
  have filesA: "concat (map (android_files here) android_sizes) = map (\<lambda>s. A @ s) fsuf"
    by (simp add: android_sizes_def android_files_def android_dir_def A_def [symmetric] joinA joinA2
        fsuf_def)
  have iosI: "map (\<lambda>e. path_join I (snd e)) ios_sizes @ [path_join I ''Contents.json''] =
      map (\<lambda>s. I @ s) isuf"
    by (simp add: ios_sizes_def joinI isuf_def)
  have targets: "file_targets here =
      (map (\<lambda>e. path_join I (snd e)) ios_sizes @ [path_join I ''Contents.json'']) @
      concat (map (android_files here) android_sizes)"
    by (simp add: file_targets_def android_files_def [abs_def] android_dir_def [abs_def]
        case_prod_beta' I_def)
  have folders: "folder_targets here = map (android_dir here) android_sizes"
    by (simp add: folder_targets_def android_dir_def [abs_def] case_prod_beta')
  have Wset: "W = (\<lambda>s. I @ s) ` set isuf \<union> (\<lambda>s. A @ s) ` set fsuf"
    unfolding W_def targets iosI filesA by simp
  have Fset: "set (folder_targets here) = (\<lambda>s. A @ s) ` set dsuf"
    unfolding folders dirA by simp
  have nI: "s1 \<noteq> s2 @ CHR ''/'' # r" if "s1 \<in> set isuf" "s2 \<in> set isuf" for s1 s2 r
    using that unfolding isuf_def by auto
  have nA: "s1 \<noteq> s2 @ CHR ''/'' # r" if "s1 \<in> set fsuf \<union> set dsuf" "s2 \<in> set fsuf" for s1 s2 r
    using that unfolding fsuf_def dsuf_def by auto
  have nF: "s1 \<noteq> s2" if "s1 \<in> set dsuf" "s2 \<in> set fsuf" for s1 s2
    using that unfolding fsuf_def dsuf_def by auto
  have BW: "B \<inter> W = {}"
  proof -
    have "b \<notin> W" if "b \<in> set (folder_targets here)" for b
      using that nF cross [symmetric] unfolding Wset Fset by auto
    moreover have "b \<notin> W" if t: "t \<in> W \<union> set (folder_targets here)" and b: "b \<in> set (ancestors t)"
      for b t
    proof
      assume bw: "b \<in> W"
      from b obtain r where r: "t = b @ CHR ''/'' # r" unfolding in_ancestors by blast
      from bw consider s2 where "s2 \<in> set isuf" "b = I @ s2" | s2 where "s2 \<in> set fsuf" "b = A @ s2"
        unfolding Wset by auto
      then show False
      proof cases
        case 1
        from t consider s1 where "s1 \<in> set isuf" "t = I @ s1"
          | s1 where "s1 \<in> set fsuf \<union> set dsuf" "t = A @ s1"
          unfolding Wset Fset by auto
        then show False
        proof cases
          case 1
          with r \<open>b = I @ s2\<close> have "s1 = s2 @ CHR ''/'' # r" by simp
          with nI [OF 1(1) \<open>s2 \<in> set isuf\<close>] show False by blast
        next
          case 2
          with r \<open>b = I @ s2\<close> have "I @ (s2 @ CHR ''/'' # r) = A @ s1" by simp
          with cross show False by blast
        qed
      next
        case 2
        from t consider s1 where "s1 \<in> set isuf" "t = I @ s1"
          | s1 where "s1 \<in> set fsuf \<union> set dsuf" "t = A @ s1"
          unfolding Wset Fset by auto
        then show False
        proof cases
          case 1
          with r \<open>b = A @ s2\<close> have "I @ s1 = A @ (s2 @ CHR ''/'' # r)" by simp
          with cross show False by blast
        next
          case 2
          with r \<open>b = A @ s2\<close> have "s1 = s2 @ CHR ''/'' # r" by simp
          with nA [OF 2(1) \<open>s2 \<in> set fsuf\<close>] show False by blast
        qed
      qed
    qed
    ultimately show ?thesis
      unfolding B_def blocked_def W_def by auto
  qed
  from assms have pre: "I \<in> dirs fs" "W \<inter> dirs fs = {}" "B \<inter> dom (files fs) = {}"
    by (auto simp: can_run_def I_def W_def B_def list_all_iff)
  have cl: "clear W B fs" using BW pre(2,3) by (simp add: clear_def)
  have g0: "grown W B fs fs" by (simp add: grown_def)
  have anc: "set (ancestors t) \<subseteq> B" if "t \<in> W \<union> set (folder_targets here)" for t
    using ancestors_blocked [of t here] that unfolding W_def B_def by simp
  have inW: "I @ s \<in> W" if "s \<in> set isuf" for s using that unfolding Wset by simp
  have "\<exists>fs1. for_each (save_ios_icon E here) ios_sizes fs = Inr fs1 \<and> grown W B fs fs1 \<and>
     dirs fs1 = dirs fs"
  proof (rule ios_loop [OF cl g0])
    show "ios_path here \<in> dirs fs" using pre(1) by (simp add: I_def)
    have "path_join I (snd e) \<in> W" if "e \<in> set ios_sizes" for e
    proof -
      from that have "path_join I (snd e) \<in> set (map (\<lambda>e. path_join I (snd e)) ios_sizes @ [path_join I ''Contents.json''])"
        by simp
      then show ?thesis unfolding iosI Wset by auto
    qed
    then show "\<forall>e \<in> set ios_sizes. path_join (ios_path here) (snd e) \<in> W \<and>
       set (ancestors (path_join (ios_path here) (snd e))) \<subseteq> B"
      using anc unfolding I_def by blast
  qed
  then obtain fs1 where fs1: "for_each (save_ios_icon E here) ios_sizes fs = Inr fs1"
    "grown W B fs fs1" "dirs fs1 = dirs fs"
    by blast
  have pcW: "path_join I ''Contents.json'' \<in> W"
  proof -
    have "path_join I ''Contents.json'' \<in> set (map (\<lambda>e. path_join I (snd e)) ios_sizes @ [path_join I ''Contents.json''])"
      by simp
    then show ?thesis unfolding iosI Wset by auto
  qed
  have pc: "path_join I ''Contents.json'' = I @ ''/Contents.json''" by (simp add: joinI)
  define fs2 where "fs2 = fs1\<lparr>files := (files fs1)(path_join I ''Contents.json'' \<mapsto> JSON contents)\<rparr>"
  have Id: "I \<in> dirs fs1" using pre(1) fs1(3) by simp
  note wm = write_step [OF cl fs1(2) Id pcW anc, of "JSON contents"]
  have w: "write_file (ios_path here) ''Contents.json'' (JSON contents) fs1 = Inr fs2"
    unfolding fs2_def using wm(1) pcW by (simp add: I_def)
  have g2: "grown W B fs fs2" unfolding fs2_def using wm(2) pcW by simp
  have dist: "distinct (concat (map (android_files here) android_sizes))"
    unfolding filesA fsuf_def by (simp add: distinct_map inj_on_def)
  have "\<exists>fs'. for_each (save_android_icon E here) android_sizes fs2 = Inr fs' \<and>
     list_all (android_ok E here fs') android_sizes \<and> dirs fs2 \<subseteq> dirs fs' \<and>
     (\<forall>p. p \<notin> set (concat (map (android_files here) android_sizes)) \<longrightarrow> files fs' p = files fs2 p)"
  proof (rule android_loop [OF cl g2 _ dist])
    show "\<forall>e \<in> set android_sizes. android_dir here e \<in> B \<and>
        set (ancestors (android_dir here e)) \<subseteq> B \<and>
        (\<forall>p \<in> set (android_files here e). p \<in> W \<and> set (ancestors p) \<subseteq> B)"
    proof (intro ballI conjI)
      fix e assume e: "e \<in> set android_sizes"
      then have d: "android_dir here e \<in> set (folder_targets here)" unfolding folders by simp
      then show "android_dir here e \<in> B" unfolding B_def by (rule folder_blocked)
      from d show "set (ancestors (android_dir here e)) \<subseteq> B" by (intro anc) simp
      fix p assume "p \<in> set (android_files here e)"
      with e have "p \<in> set (concat (map (android_files here) android_sizes))" by auto
      then show pw: "p \<in> W" unfolding W_def targets by simp
      then show "set (ancestors p) \<subseteq> B" by (intro anc) simp
    qed
  qed
  then obtain fs3 where fs3: "for_each (save_android_icon E here) android_sizes fs2 = Inr fs3"
    "list_all (android_ok E here fs3) android_sizes"
    "\<And>p. p \<notin> set (concat (map (android_files here) android_sizes)) \<Longrightarrow> files fs3 p = files fs2 p"
    by blast
  have "path_join I ''Contents.json'' \<notin> set (concat (map (android_files here) android_sizes))"
    unfolding pc filesA using cross by auto
  then have "files fs3 (path_join I ''Contents.json'') = Some (JSON contents)"
    using fs3(3) by (simp add: fs2_def)
  moreover have "main E here fs = Inr fs3"
    by (simp add: main_def fs1(1) w fs3(1) and_then_def)
  ultimately show ?thesis
    using fs3(2) by (simp add: I_def)
qed

lemma can_run_fresh_tree: "can_run ''scripts'' fresh_tree"
  by (simp add: can_run_def fresh_tree_def file_targets_def ios_path_def
      path_join_def ios_sizes_def android_sizes_def android_path_def list_all_iff)

text \<open>
  The run raises when an ancestor of a path it touches is a regular file, whatever else the
  tree holds.
\<close>

lemma write_keeps_files:
  assumes "write_file d n c fs = Inr fs1"
  shows "dom (files fs) \<subseteq> dom (files fs1)"
  using assms by (auto simp: write_file_def Let_def split: if_splits)

lemma ios_keeps_files:
  assumes "for_each (save_ios_icon E here) xs fs = Inr fs1"
  shows "dom (files fs) \<subseteq> dom (files fs1)"
  using assms
proof (induction xs arbitrary: fs)
  case Nil
  then show ?case by simp
next
  case (Cons e xs)
  obtain sz f where e: "e = (sz, f)" by (cases e)
  have step: "save_ios_icon E here e fs =
      write_file (ios_path here) f (PNG (create_app_icon E sz)) fs"
    by (simp add: e save_ios_icon_def)
  show ?case
  proof (cases "write_file (ios_path here) f (PNG (create_app_icon E sz)) fs")
    case (Inl err)
    with Cons.prems step show ?thesis by (simp add: and_then_def)
  next
    case (Inr fs')
    with Cons.prems step have "for_each (save_ios_icon E here) xs fs' = Inr fs1"
      by (simp add: and_then_def)
    from write_keeps_files [OF Inr] Cons.IH [OF this] show ?thesis by blast
  qed
qed

lemma main_android_under_file:
  assumes "a \<in> set (ancestors (path_join (android_path here) ''mipmap-mdpi''))"
    "a \<in> dom (files fs)"
  shows "\<exists>e. main E here fs = Inl e"
proof (cases "for_each (save_ios_icon E here) ios_sizes fs")
  case (Inl e)
  then show ?thesis by (simp add: main_def and_then_def)
next
  case (Inr fs1)
  note k1 = ios_keeps_files [OF Inr]
  show ?thesis
  proof (cases "write_file (ios_path here) ''Contents.json'' (JSON contents) fs1")
    case (Inl e)
    with Inr show ?thesis by (simp add: main_def and_then_def)
  next
    case (Inr fs2)
    let ?p = "path_join (android_path here) ''mipmap-mdpi''"
    have "a \<in> dom (files fs2)" using assms(2) k1 write_keeps_files [OF Inr] by blast
    then have "list_ex (\<lambda>a. a \<in> dom (files fs2)) (ancestors ?p)"
      using assms(1) unfolding list_ex_iff by blast
    then have "makedirs ?p fs2 = Inl (NotADirectoryError ?p)" by (simp add: makedirs_def)
    then have "for_each (save_android_icon E here) android_sizes fs2 = Inl (NotADirectoryError ?p)"
      by (simp add: android_sizes_def save_android_icon_def and_then_def Let_def)
    with Inr \<open>for_each (save_ios_icon E here) ios_sizes fs = Inr fs1\<close> show ?thesis
      by (simp add: main_def and_then_def)
  qed
qed

lemma main_raises_under_file:
  "\<exists>e. main E ''scripts'' (fresh_tree\<lparr>files := [''scripts/../android'' \<mapsto> JSON contents]\<rparr>) = Inl e"
proof (rule main_android_under_file)
  show "''scripts/../android'' \<in> set (ancestors (path_join (android_path ''scripts'') ''mipmap-mdpi''))"
    unfolding in_ancestors by (simp add: android_path_def path_join_def)
  show "''scripts/../android'' \<in> dom (files (fresh_tree\<lparr>files := [''scripts/../android'' \<mapsto> JSON contents]\<rparr>))"
    by simp
qed

section \<open>A call returns the canvas of the functional renderer\<close>

lemma rgba_at_last [simp]: "rgba_at (h @ [RGBA img]) (length h) = img"
  by (simp add: rgba_at_def)

lemma draw_on_last [simp]: "draw_on (length h) f (h @ [RGBA img]) = h @ [RGBA (f img)]"
  by (simp add: draw_on_def)

lemma draw_on_L_last [simp]: "draw_on_L (length h) f (h @ [L img]) = h @ [L (f img)]"
  by (simp add: draw_on_L_def l_at_def)

lemma fold_draw_on_last:
  "fold (\<lambda>y. draw_on (length h) (f y)) ys (h @ [RGBA img]) = h @ [RGBA (fold f ys img)]"
  by (induction ys arbitrary: img) simp_all

lemma call_result:
  "create_app_icon_call E sz h =
     (length h + 2,
      h @ [RGBA (gradient_background E sz), L (rounded_mask E sz), RGBA (create_app_icon E sz)])"
proof -
  let ?g = "RGBA (gradient_background E sz)"
  let ?m = "L (rounded_mask E sz)"
  let ?o = "RGBA (Image_new (sz, sz) (0, 0, 0, 0))"
  have g: "fold (\<lambda>y. draw_on (length h) (gradient_row E sz y)) (map int [0..<nat sz])
        (h @ [RGBA (Image_new (sz, sz) (0, 0, 0, 0))]) = h @ [?g]"
    by (simp add: fold_draw_on_last gradient_background_def)
  have m: "draw_on_L (length (h @ [?g])) (rounded_rectangle E (0, 0) (sz, sz) (corner_radius sz) 255)
        ((h @ [?g]) @ [L (Image_new (sz, sz) 0)]) = (h @ [?g]) @ [?m]"
    unfolding rounded_mask_def by (rule draw_on_L_last)
  have i: "rgba_at (((h @ [?g]) @ [?m]) @ [x]) (length h) = gradient_background E sz" for x
    by (simp add: rgba_at_def nth_append)
  have k: "l_at (((h @ [?g]) @ [?m]) @ [x]) (length (h @ [?g])) = rounded_mask E sz" for x
    by (simp add: l_at_def nth_append)
  have n: "length h + 2 = length ((h @ [?g]) @ [?m])" by simp
  have "create_app_icon_call E sz h =
      (length ((h @ [?g]) @ [?m]), ((h @ [?g]) @ [?m]) @ [RGBA (create_app_icon E sz)])"
    unfolding create_app_icon_call_def new_image_def Let_def prod.case g
    unfolding m
    unfolding draw_on_last i k fold_draw_on_last
    by (simp only: create_app_icon_def masked_background_def Let_def)
  then show ?thesis by simp
qed

section \<open>Facts about the stars\<close>

lemma star_point_exact:
  "star_point exact x y R i =
     (x + (if even i then R else R * 0.5) * sin (real i * (36 * pi / 180)),
      y - (if even i then R else R * 0.5) * cos (real i * (36 * pi / 180)))"
proof -
  have a: "pi * real i / 5 - pi / 2 = real i * (36 * pi / 180) - pi / 2" by simp
  have c: "cos (real i * (36 * pi / 180) - pi / 2) = sin (real i * (36 * pi / 180))"
    by (simp add: cos_diff)
  have s: "sin (real i * (36 * pi / 180) - pi / 2) = - cos (real i * (36 * pi / 180))"
    by (simp add: sin_diff)
  show ?thesis
    unfolding star_point_def exact_def Let_def fsub_def fdiv_def fmul_def fadd_def lit_def
    by (simp only: env.simps a c s even_iff_mod_2_eq_zero) simp
qed

lemma exact_trig_ok: "trig_ok exact"
  by (simp add: trig_ok_def exact_def)

lemma cos_lipschitz:
  fixes a b :: real
  shows "\<bar>cos a - cos b\<bar> \<le> \<bar>a - b\<bar>"
proof -
  have e: "\<bar>cos a - cos b\<bar> = 2 * (\<bar>sin ((a + b) / 2)\<bar> * \<bar>sin ((b - a) / 2)\<bar>)"
    by (simp add: cos_diff_cos abs_mult)
  have "\<bar>sin ((a + b) / 2)\<bar> * \<bar>sin ((b - a) / 2)\<bar> \<le> 1 * \<bar>(b - a) / 2\<bar>"
    by (intro mult_mono abs_sin_x_le_abs_x abs_sin_le_one) simp_all
  with e show ?thesis by simp
qed

lemma sin_lipschitz:
  fixes a b :: real
  shows "\<bar>sin a - sin b\<bar> \<le> \<bar>a - b\<bar>"
proof -
  have e: "\<bar>sin a - sin b\<bar> = 2 * (\<bar>sin ((a - b) / 2)\<bar> * \<bar>cos ((a + b) / 2)\<bar>)"
    by (simp add: sin_diff_sin abs_mult)
  have "\<bar>sin ((a - b) / 2)\<bar> * \<bar>cos ((a + b) / 2)\<bar> \<le> \<bar>(a - b) / 2\<bar> * 1"
    by (intro mult_mono abs_sin_x_le_abs_x abs_cos_le_one) simp_all
  with e show ?thesis by simp
qed

lemma fl_err:
  assumes "float_ok E" "\<bar>v\<bar> \<le> b"
  shows "\<bar>fl E v - v\<bar> \<le> b / 2 ^ 53"
proof -
  have "\<bar>fl E v - v\<bar> \<le> \<bar>v\<bar> / 2 ^ 53" using assms(1) by (simp add: float_ok_def)
  also have "\<dots> \<le> b / 2 ^ 53" using assms(2) by (simp add: divide_right_mono)
  finally show ?thesis .
qed

lemma angle_error:
  assumes ok: "float_ok E" and i: "i < 10"
  shows "\<bar>fsub E (fdiv E (fmul E (lit E pi) (of_nat i)) 5) (fdiv E (lit E pi) 2)
          - (real i * pi / 5 - pi / 2)\<bar> \<le> 46 / 2 ^ 53"
proof -
  define u :: real where "u = 1 / 2 ^ 53"
  have u: "0 \<le> u" "u \<le> 1 / 1000" unfolding u_def by simp_all
  have e: "\<bar>fl E v - v\<bar> \<le> b * u" if "\<bar>v\<bar> \<le> b" for v b
    using fl_err [OF ok that] unfolding u_def by simp
  define p where "p = fl E pi"
  define a1 where "a1 = fl E (p * real i)"
  define a2 where "a2 = fl E (a1 / 5)"
  define b where "b = fl E (p / 2)"
  have pi4: "\<bar>pi\<bar> \<le> 4" using pi_less_4 pi_gt_zero by simp
  have p1: "\<bar>p - pi\<bar> \<le> 4 * u" unfolding p_def by (rule e [OF pi4])
  have p2: "\<bar>p\<bar> \<le> 5" using p1 pi4 u by linarith
  have ir: "0 \<le> real i" "real i \<le> 9" using i by simp_all
  have "\<bar>p * real i\<bar> = \<bar>p\<bar> * real i" using ir by (simp add: abs_mult)
  also have "\<dots> \<le> 5 * 9" using p2 ir by (intro mult_mono) simp_all
  finally have pi45: "\<bar>p * real i\<bar> \<le> 45" by simp
  have a1e: "\<bar>a1 - p * real i\<bar> \<le> 45 * u" unfolding a1_def by (rule e [OF pi45])
  have "\<bar>p * real i - pi * real i\<bar> = \<bar>p - pi\<bar> * real i"
    using ir by (simp add: abs_mult left_diff_distrib [symmetric])
  also have "\<dots> \<le> (4 * u) * 9" using p1 ir u by (intro mult_mono) simp_all
  finally have d1: "\<bar>p * real i - pi * real i\<bar> \<le> 36 * u" by simp
  have a1t: "\<bar>a1 - pi * real i\<bar> \<le> 81 * u" using a1e d1 by linarith
  have a1b: "\<bar>a1 / 5\<bar> \<le> 10" using a1e pi45 u by linarith
  have a2e: "\<bar>a2 - a1 / 5\<bar> \<le> 10 * u" unfolding a2_def by (rule e [OF a1b])
  have a2t: "\<bar>a2 - pi * real i / 5\<bar> \<le> 27 * u" using a2e a1t u by linarith
  have pb: "\<bar>p / 2\<bar> \<le> 3" using p2 by simp
  have be: "\<bar>b - p / 2\<bar> \<le> 3 * u" unfolding b_def by (rule e [OF pb])
  have bt: "\<bar>b - pi / 2\<bar> \<le> 5 * u" using be p1 by linarith
  have ab: "\<bar>a2 - b\<bar> \<le> 14" using a2e a1b be pb u by linarith
  have fe: "\<bar>fl E (a2 - b) - (a2 - b)\<bar> \<le> 14 * u" by (rule e [OF ab])
  have "\<bar>fl E (a2 - b) - (pi * real i / 5 - pi / 2)\<bar> \<le> 46 * u"
    using fe a2t bt by linarith
  then show ?thesis
    unfolding fsub_def fdiv_def fmul_def lit_def p_def [symmetric] a1_def [symmetric]
      a2_def [symmetric] b_def [symmetric] u_def
    by (simp add: mult.commute)
qed

lemma vertex_error:
  assumes ok: "float_ok E" and c: "\<bar>c - C\<bar> \<le> 48 / 2 ^ 53" "\<bar>c\<bar> \<le> 1" "\<bar>C\<bar> \<le> 1"
  shows "\<bar>fadd E x (fmul E \<rho> c) - (x + \<rho> * C)\<bar> \<le> (\<bar>x\<bar> + \<bar>\<rho>\<bar>) * 99 / 2 ^ 53"
proof -
  define u :: real where "u = 1 / 2 ^ 53"
  have u: "0 \<le> u" "u \<le> 1 / 1000" unfolding u_def by simp_all
  have e: "\<bar>fl E v - v\<bar> \<le> b * u" if "\<bar>v\<bar> \<le> b" for v b
    using fl_err [OF ok that] unfolding u_def by simp
  define Pu where "Pu = \<bar>\<rho>\<bar> * u"
  define Xu where "Xu = \<bar>x\<bar> * u"
  define t where "t = fl E (\<rho> * c)"
  have Pu: "0 \<le> Pu" "Pu \<le> \<bar>\<rho>\<bar> * (1 / 1000)"
  proof -
    show "0 \<le> Pu" unfolding Pu_def using u by simp
    show "Pu \<le> \<bar>\<rho>\<bar> * (1 / 1000)" unfolding Pu_def using u(2) by (intro mult_left_mono) simp_all
  qed
  have Xu: "0 \<le> Xu" unfolding Xu_def using u by simp
  have rc: "\<bar>\<rho> * c\<bar> \<le> \<bar>\<rho>\<bar>"
    using c(2) by (simp add: abs_mult mult_left_le)
  have rC: "\<bar>\<rho> * C\<bar> \<le> \<bar>\<rho>\<bar>"
    using c(3) by (simp add: abs_mult mult_left_le)
  have t1: "\<bar>t - \<rho> * c\<bar> \<le> Pu" unfolding t_def Pu_def by (rule e [OF rc])
  have "\<bar>\<rho> * c - \<rho> * C\<bar> = \<bar>\<rho>\<bar> * \<bar>c - C\<bar>"
    by (simp add: abs_mult right_diff_distrib [symmetric])
  also have "\<dots> \<le> \<bar>\<rho>\<bar> * (48 * u)"
    using c(1) unfolding u_def by (intro mult_left_mono) simp_all
  finally have t2: "\<bar>\<rho> * c - \<rho> * C\<bar> \<le> 48 * Pu" unfolding Pu_def by simp
  have t3: "\<bar>t - \<rho> * C\<bar> \<le> 49 * Pu" using t1 t2 by linarith
  have xt: "\<bar>x + t\<bar> \<le> \<bar>x\<bar> + 2 * \<bar>\<rho>\<bar>" using t3 rC Pu by linarith
  have "\<bar>fl E (x + t) - (x + t)\<bar> \<le> (\<bar>x\<bar> + 2 * \<bar>\<rho>\<bar>) * u" by (rule e [OF xt])
  then have v: "\<bar>fl E (x + t) - (x + t)\<bar> \<le> Xu + 2 * Pu"
    unfolding Xu_def Pu_def by (simp add: algebra_simps)
  have "fl E (x + t) - (x + \<rho> * C) = (fl E (x + t) - (x + t)) + (t - \<rho> * C)" by simp
  then have "\<bar>fl E (x + t) - (x + \<rho> * C)\<bar> \<le> \<bar>fl E (x + t) - (x + t)\<bar> + \<bar>t - \<rho> * C\<bar>"
    by (simp only: abs_triangle_ineq)
  also have "\<dots> \<le> (Xu + 2 * Pu) + 49 * Pu" by (intro add_mono v t3)
  also have "\<dots> \<le> 99 * (Xu + Pu)" using Pu(1) Xu by simp
  finally have "\<bar>fl E (x + t) - (x + \<rho> * C)\<bar> \<le> 99 * (Xu + Pu)" .
  also have "99 * (Xu + Pu) = (\<bar>x\<bar> + \<bar>\<rho>\<bar>) * 99 / 2 ^ 53"
    unfolding Xu_def Pu_def u_def by (simp add: algebra_simps)
  finally show ?thesis unfolding fadd_def fmul_def t_def .
qed

lemma half_radius_exact:
  assumes "trig_ok E" "fl E R = R"
  shows "fmul E R (lit E 0.5) = R * 0.5"
proof -
  have h: "fl E (1 / 2) = 1 / 2" using assms(1) by (simp add: trig_ok_def)
  have "fl E (fl E R / 2) = fl E R / 2" using assms(1) unfolding trig_ok_def by blast
  then have r: "fl E (R / 2) = R / 2" unfolding assms(2) .
  have "fmul E R (lit E 0.5) = fl E (R * fl E (1 / 2))" by (simp add: fmul_def lit_def)
  also have "\<dots> = fl E (R * (1 / 2))" by (simp only: h)
  also have "\<dots> = fl E (R / 2)" by simp
  also have "\<dots> = R / 2" by (rule r)
  finally show ?thesis by simp
qed

lemma star_point_close:
  assumes ok: "float_ok E" and tr: "trig_ok E" and R: "fl E R = R" and i: "i < 10"
  defines "\<rho> \<equiv> (if even i then R else R * 0.5)"
  shows "\<bar>fst (star_point E x y R i) - (x + \<rho> * sin (real i * (36 * pi / 180)))\<bar>
           \<le> (\<bar>x\<bar> + \<bar>R\<bar>) / 2 ^ 46"
    "\<bar>snd (star_point E x y R i) - (y - \<rho> * cos (real i * (36 * pi / 180)))\<bar>
           \<le> (\<bar>y\<bar> + \<bar>R\<bar>) / 2 ^ 46"
proof -
  define ang where "ang = fsub E (fdiv E (fmul E (lit E pi) (of_nat i)) 5) (fdiv E (lit E pi) 2)"
  define th where "th = real i * pi / 5 - pi / 2"
  have a: "\<bar>ang - th\<bar> \<le> 46 / 2 ^ 53" unfolding ang_def th_def by (rule angle_error [OF ok i])
  have tc: "\<bar>fcos E ang - cos ang\<bar> \<le> 1 / 2 ^ 52" and ts: "\<bar>fsin E ang - sin ang\<bar> \<le> 1 / 2 ^ 52"
    using tr unfolding trig_ok_def by blast+
  have c: "\<bar>fcos E ang - cos th\<bar> \<le> 48 / 2 ^ 53"
  proof -
    have "fcos E ang - cos th = (fcos E ang - cos ang) + (cos ang - cos th)" by simp
    then have "\<bar>fcos E ang - cos th\<bar> \<le> \<bar>fcos E ang - cos ang\<bar> + \<bar>cos ang - cos th\<bar>"
      by (simp only: abs_triangle_ineq)
    also have "\<dots> \<le> 1 / 2 ^ 52 + 46 / 2 ^ 53"
      by (intro add_mono tc order_trans [OF cos_lipschitz a])
    also have "\<dots> = 48 / 2 ^ 53" by simp
    finally show ?thesis .
  qed
  have s: "\<bar>fsin E ang - sin th\<bar> \<le> 48 / 2 ^ 53"
  proof -
    have "fsin E ang - sin th = (fsin E ang - sin ang) + (sin ang - sin th)" by simp
    then have "\<bar>fsin E ang - sin th\<bar> \<le> \<bar>fsin E ang - sin ang\<bar> + \<bar>sin ang - sin th\<bar>"
      by (simp only: abs_triangle_ineq)
    also have "\<dots> \<le> 1 / 2 ^ 52 + 46 / 2 ^ 53"
      by (intro add_mono ts order_trans [OF sin_lipschitz a])
    also have "\<dots> = 48 / 2 ^ 53" by simp
    finally show ?thesis .
  qed
  have b: "\<bar>fcos E ang\<bar> \<le> 1" "\<bar>fsin E ang\<bar> \<le> 1" using ok by (simp_all add: float_ok_def)
  have th': "th = real i * (36 * pi / 180) - pi / 2" unfolding th_def by simp
  have cth: "cos th = sin (real i * (36 * pi / 180))" unfolding th' by (simp add: cos_diff)
  have sth: "sin th = - cos (real i * (36 * pi / 180))" unfolding th' by (simp add: sin_diff)
  have rho: "(if i mod 2 = 0 then R else fmul E R (lit E 0.5)) = \<rho>"
    unfolding \<rho>_def using half_radius_exact [OF tr R] by (simp add: even_iff_mod_2_eq_zero)
  have p: "star_point E x y R i =
      (fadd E x (fmul E \<rho> (fcos E ang)), fadd E y (fmul E \<rho> (fsin E ang)))"
    unfolding star_point_def Let_def ang_def [symmetric] rho by simp
  have rR: "\<bar>\<rho>\<bar> \<le> \<bar>R\<bar>" unfolding \<rho>_def by simp
  have w: "(\<bar>z\<bar> + \<bar>\<rho>\<bar>) * 99 / 2 ^ 53 \<le> (\<bar>z\<bar> + \<bar>R\<bar>) / 2 ^ 46" for z :: real
    using rR by simp
  have "\<bar>fadd E x (fmul E \<rho> (fcos E ang)) - (x + \<rho> * cos th)\<bar> \<le> (\<bar>x\<bar> + \<bar>\<rho>\<bar>) * 99 / 2 ^ 53"
    by (rule vertex_error [OF ok c b(1)]) simp
  then show "\<bar>fst (star_point E x y R i) - (x + \<rho> * sin (real i * (36 * pi / 180)))\<bar>
           \<le> (\<bar>x\<bar> + \<bar>R\<bar>) / 2 ^ 46"
    unfolding p cth using w [of x] by simp
  have "\<bar>fadd E y (fmul E \<rho> (fsin E ang)) - (y + \<rho> * sin th)\<bar> \<le> (\<bar>y\<bar> + \<bar>\<rho>\<bar>) * 99 / 2 ^ 53"
    by (rule vertex_error [OF ok s b(2)]) simp
  then show "\<bar>snd (star_point E x y R i) - (y - \<rho> * cos (real i * (36 * pi / 180)))\<bar>
           \<le> (\<bar>y\<bar> + \<bar>R\<bar>) / 2 ^ 46"
    unfolding p sth using w [of y] by simp
qed

section \<open>The pixels of the rendered icon\<close>

lemma int_points_float_points [simp]: "int_points (float_points ps) = ps"
  by (induction ps) (auto simp: int_points_def float_points_def)

lemma polygon_px:
  "px (polygon E ps c img) x y =
     (if in_image img x y \<and> polygon_cover E (int_points ps) x y then c else px img x y)"
  by (simp add: polygon_def paint_px)

lemma in_image_polygon [simp]: "in_image (polygon E ps c img) x y = in_image img x y"
  by (simp add: in_image_def)

lemma in_image_draw_star [simp]: "in_image (draw_star E s img) x y = in_image img x y"
  by (simp add: in_image_def)

lemma stars_px:
  "px (fold (draw_star E) ss img) x y =
     (if in_image img x y \<and> list_ex (\<lambda>s. one_star_cover E s x y) ss then (255, 215, 0, 255)
      else px img x y)"
proof (induction ss arbitrary: img)
  case Nil
  then show ?case by simp
next
  case (Cons s ss)
  have "px (draw_star E s img) x y =
     (if in_image img x y \<and> one_star_cover E s x y then (255, 215, 0, 255) else px img x y)"
    by (cases s) (simp add: draw_star_def one_star_cover_def polygon_px)
  then show ?case
    by (auto simp: Cons.IH)
qed

lemma icon_px:
  "px (create_app_icon E sz) x y =
     (if 0 \<le> x \<and> x < sz \<and> 0 \<le> y \<and> y < sz then
        if star_cover E sz x y then (255, 215, 0, 255)
        else if opening_cover E sz x y then (48, 63, 159, 255)
        else if tent_cover E sz x y then (255, 255, 255, 255)
        else px (masked_background E sz) x y
      else px (masked_background E sz) x y)"
  by (simp add: create_app_icon_def Let_def stars_px polygon_px in_image_def star_cover_def
      opening_cover_def tent_cover_def)

lemma masked_alpha:
  "alpha (px (masked_background E sz) x y) =
     (if 0 \<le> x \<and> x < sz \<and> 0 \<le> y \<and> y < sz \<and> footprint E sz x y then 255 else 0)"
  by (simp add: masked_background_px alpha_def footprint_def)

section \<open>Rounding errors of the star coordinates\<close>

lemma fl_close:
  assumes "float_ok E"
  shows "\<bar>fl E v - v\<bar> \<le> \<bar>v\<bar> / 10000"
proof -
  have "\<bar>fl E v - v\<bar> \<le> \<bar>v\<bar> / 2 ^ 53" using assms by (simp add: float_ok_def)
  also have "\<dots> \<le> \<bar>v\<bar> / 10000" by (intro divide_left_mono) simp_all
  finally show ?thesis .
qed

lemma fl_between:
  assumes "float_ok E" "0 \<le> lo" "lo \<le> v" "v \<le> hi"
  shows "lo * (9999 / 10000) \<le> fl E v" "fl E v \<le> hi * (10001 / 10000)"
  using fl_close [OF assms(1), of v] assms(2-) by (simp_all add: abs_if split: if_splits)

lemma fl_abs:
  assumes "float_ok E" "\<bar>v\<bar> \<le> b"
  shows "\<bar>fl E v\<bar> \<le> b * (10001 / 10000)"
  using fl_close [OF assms(1), of v] assms(2) by (simp add: abs_if split: if_splits)

lemma scaled_bounds:
  assumes ok: "float_ok E" and S: "0 \<le> S" and a: "0 \<le> a"
  shows "S * a * (9998 / 10000) \<le> fmul E S (lit E a)"
    "fmul E S (lit E a) \<le> S * a * (10003 / 10000)"
proof -
  have la: "a * (9999 / 10000) \<le> fl E a" "fl E a \<le> a * (10001 / 10000)"
    using fl_between [OF ok a order_refl order_refl] by simp_all
  have lo: "S * (a * (9999 / 10000)) \<le> S * fl E a" using la(1) S by (rule mult_left_mono)
  have hi: "S * fl E a \<le> S * (a * (10001 / 10000))" using la(2) S by (rule mult_left_mono)
  have nn: "0 \<le> S * (a * (9999 / 10000))" using S a by simp
  have b: "S * (a * (9999 / 10000)) * (9999 / 10000) \<le> fl E (S * fl E a)"
    "fl E (S * fl E a) \<le> S * (a * (10001 / 10000)) * (10001 / 10000)"
    using fl_between [OF ok nn lo hi] by simp_all
  have u: "0 \<le> S * a" using S a by simp
  show "S * a * (9998 / 10000) \<le> fmul E S (lit E a)"
    using b(1) u by (simp add: fmul_def lit_def)
  show "fmul E S (lit E a) \<le> S * a * (10003 / 10000)"
    using b(2) u by (simp add: fmul_def lit_def)
qed

lemma half_radius_bounds:
  assumes ok: "float_ok E" and r: "0 \<le> r"
  shows "0 \<le> fmul E r (lit E 0.5)" "fmul E r (lit E 0.5) \<le> r"
proof -
  have h: "0.5 * (9999 / 10000) \<le> fl E 0.5" "fl E 0.5 \<le> 0.5 * (10001 / 10000)"
    using fl_between [OF ok _ order_refl order_refl, of "0.5"] by simp_all
  have lo: "r * (0.5 * (9999 / 10000)) \<le> r * fl E 0.5" using h(1) r by (rule mult_left_mono)
  have hi: "r * fl E 0.5 \<le> r * (0.5 * (10001 / 10000))" using h(2) r by (rule mult_left_mono)
  have nn: "0 \<le> r * (0.5 * (9999 / 10000))" using r by simp
  have b: "r * (0.5 * (9999 / 10000)) * (9999 / 10000) \<le> fl E (r * fl E 0.5)"
    "fl E (r * fl E 0.5) \<le> r * (0.5 * (10001 / 10000)) * (10001 / 10000)"
    using fl_between [OF ok nn lo hi] by simp_all
  show "0 \<le> fmul E r (lit E 0.5)" using b(1) r by (simp add: fmul_def lit_def)
  show "fmul E r (lit E 0.5) \<le> r" using b(2) r by (simp add: fmul_def lit_def)
qed

lemma offset_bounds:
  assumes ok: "float_ok E" and c: "0 \<le> cl" "cl \<le> c" "c \<le> ch"
    and ri: "0 \<le> ri" "ri \<le> rh" and t: "\<bar>t\<bar> \<le> 1"
  shows "cl - ch / 10000 - rh * (10003 / 10000) \<le> fadd E c (fmul E ri t)"
    "fadd E c (fmul E ri t) \<le> ch * (10002 / 10000) + rh * (10003 / 10000)"
proof -
  have "\<bar>ri * t\<bar> = ri * \<bar>t\<bar>" using ri(1) by (simp add: abs_mult)
  also have "\<dots> \<le> ri * 1" using t ri(1) by (rule mult_left_mono)
  finally have "\<bar>ri * t\<bar> \<le> rh" using ri(2) by simp
  from fl_abs [OF ok this] have m: "\<bar>fl E (ri * t)\<bar> \<le> rh * (10001 / 10000)" .
  have rh: "0 \<le> rh" using ri by simp
  have "\<bar>c + fl E (ri * t)\<bar> \<le> ch + rh * (10001 / 10000)" using m c by (simp add: abs_if split: if_splits)
  then have "\<bar>fl E (c + fl E (ri * t)) - (c + fl E (ri * t))\<bar> \<le> (ch + rh * (10001 / 10000)) / 10000"
    using fl_close [OF ok, of "c + fl E (ri * t)"] by simp
  then show "cl - ch / 10000 - rh * (10003 / 10000) \<le> fadd E c (fmul E ri t)"
    "fadd E c (fmul E ri t) \<le> ch * (10002 / 10000) + rh * (10003 / 10000)"
    using m c rh unfolding fadd_def fmul_def by (simp_all add: abs_if split: if_splits)
qed

lemma py_int_bounds:
  "real_of_int (py_int v) > v - 1" "0 \<le> hi \<Longrightarrow> v \<le> hi \<Longrightarrow> real_of_int (py_int v) \<le> hi"
proof -
  show "real_of_int (py_int v) > v - 1"
    unfolding py_int_def by (auto; linarith)
  show "real_of_int (py_int v) \<le> hi" if "0 \<le> hi" "v \<le> hi"
  proof (cases "0 \<le> v")
    case True
    then show ?thesis using that unfolding py_int_def by (simp; linarith)
  next
    case False
    then have "\<lceil>v\<rceil> \<le> 0" by (simp add: ceiling_le_zero)
    then have "real_of_int \<lceil>v\<rceil> \<le> 0" by simp
    with that(1) have "real_of_int \<lceil>v\<rceil> \<le> hi" by linarith
    then show ?thesis using False unfolding py_int_def by simp
  qed
qed

lemma star_point_bounds:
  fixes i :: nat
  assumes ok: "float_ok E" and S: "0 \<le> S" and a: "0 \<le> a" and b: "0 \<le> b" and rho: "0 \<le> \<rho>"
  defines "p \<equiv> star_point E (fmul E S (lit E a)) (fmul E S (lit E b)) (fmul E S (lit E \<rho>)) i"
  shows "S * a * (9996 / 10000) - S * \<rho> * (10007 / 10000) \<le> fst p"
    "fst p \<le> S * a * (10006 / 10000) + S * \<rho> * (10007 / 10000)"
    "S * b * (9996 / 10000) - S * \<rho> * (10007 / 10000) \<le> snd p"
    "snd p \<le> S * b * (10006 / 10000) + S * \<rho> * (10007 / 10000)"
proof -
  define r where "r = fmul E S (lit E \<rho>)"
  define ri where "ri = (if i mod 2 = 0 then r else fmul E r (lit E 0.5))"
  define t where "t = fsub E (fdiv E (fmul E (lit E pi) (of_nat i)) 5) (fdiv E (lit E pi) 2)"
  have w: "0 \<le> S * \<rho>" using S rho by simp
  have r: "0 \<le> r" "r \<le> S * \<rho> * (10003 / 10000)"
    using scaled_bounds [OF ok S rho] w unfolding r_def by simp_all
  have ri: "0 \<le> ri" "ri \<le> S * \<rho> * (10003 / 10000)"
    using half_radius_bounds [OF ok r(1)] r unfolding ri_def by auto
  have tc: "\<bar>fcos E t\<bar> \<le> 1" and ts: "\<bar>fsin E t\<bar> \<le> 1"
    using ok by (simp_all add: float_ok_def)
  have p: "p = (fadd E (fmul E S (lit E a)) (fmul E ri (fcos E t)),
                fadd E (fmul E S (lit E b)) (fmul E ri (fsin E t)))"
    unfolding p_def star_point_def Let_def ri_def r_def t_def by simp
  have ua: "0 \<le> S * a" using S a by simp
  have ub: "0 \<le> S * b" using S b by simp
  have ca: "0 \<le> S * a * (9998 / 10000)" using ua by simp
  have cb: "0 \<le> S * b * (9998 / 10000)" using ub by simp
  note xa = offset_bounds [OF ok ca scaled_bounds [OF ok S a] ri tc]
  note yb = offset_bounds [OF ok cb scaled_bounds [OF ok S b] ri ts]
  show "S * a * (9996 / 10000) - S * \<rho> * (10007 / 10000) \<le> fst p"
    using xa(1) ua w unfolding p by simp
  show "fst p \<le> S * a * (10006 / 10000) + S * \<rho> * (10007 / 10000)"
    using xa(2) ua w unfolding p by simp
  show "S * b * (9996 / 10000) - S * \<rho> * (10007 / 10000) \<le> snd p"
    using yb(1) ub w unfolding p by simp
  show "snd p \<le> S * b * (10006 / 10000) + S * \<rho> * (10007 / 10000)"
    using yb(2) ub w unfolding p by simp
qed

lemma star_vertex_range:
  assumes ok: "float_ok E" and S: "0 \<le> S" and a: "0 \<le> a" and b: "0 \<le> b" and rho: "0 \<le> \<rho>"
    and q: "q \<in> set (int_points (star_points E (fmul E S (lit E a)) (fmul E S (lit E b))
                 (fmul E S (lit E \<rho>))))"
  shows "S * a * (9996 / 10000) - S * \<rho> * (10007 / 10000) - 1 < real_of_int (fst q)"
    "real_of_int (fst q) \<le> S * a * (10006 / 10000) + S * \<rho> * (10007 / 10000)"
    "S * b * (9996 / 10000) - S * \<rho> * (10007 / 10000) - 1 < real_of_int (snd q)"
    "real_of_int (snd q) \<le> S * b * (10006 / 10000) + S * \<rho> * (10007 / 10000)"
proof -
  from q obtain i where
    qi: "q = (py_int (fst (star_point E (fmul E S (lit E a)) (fmul E S (lit E b)) (fmul E S (lit E \<rho>)) i)),
              py_int (snd (star_point E (fmul E S (lit E a)) (fmul E S (lit E b)) (fmul E S (lit E \<rho>)) i)))"
    by (auto simp: int_points_def star_points_def case_prod_beta)
  note B = star_point_bounds [OF ok S a b rho, where i = i]
  have ha: "0 \<le> S * a * (10006 / 10000) + S * \<rho> * (10007 / 10000)" using S a rho by simp
  have hb: "0 \<le> S * b * (10006 / 10000) + S * \<rho> * (10007 / 10000)" using S b rho by simp
  show "S * a * (9996 / 10000) - S * \<rho> * (10007 / 10000) - 1 < real_of_int (fst q)"
    using py_int_bounds(1) [of "fst (star_point E (fmul E S (lit E a)) (fmul E S (lit E b)) (fmul E S (lit E \<rho>)) i)"] B(1)
    unfolding qi by simp
  show "real_of_int (fst q) \<le> S * a * (10006 / 10000) + S * \<rho> * (10007 / 10000)"
    using py_int_bounds(2) [OF ha B(2)] unfolding qi by simp
  show "S * b * (9996 / 10000) - S * \<rho> * (10007 / 10000) - 1 < real_of_int (snd q)"
    using py_int_bounds(1) [of "snd (star_point E (fmul E S (lit E a)) (fmul E S (lit E b)) (fmul E S (lit E \<rho>)) i)"] B(3)
    unfolding qi by simp
  show "real_of_int (snd q) \<le> S * b * (10006 / 10000) + S * \<rho> * (10007 / 10000)"
    using py_int_bounds(2) [OF hb B(4)] unfolding qi by simp
qed

section \<open>Where the polygons and the mask can reach\<close>

lemma in_bbox_D:
  assumes "in_bbox ps x y"
  shows "\<exists>p \<in> set ps. fst p \<le> x" "\<exists>p \<in> set ps. x \<le> fst p"
    "\<exists>p \<in> set ps. snd p \<le> y" "\<exists>p \<in> set ps. y \<le> snd p"
  using assms by (auto simp: in_bbox_def list_ex_iff)

lemma polygon_cover_D:
  assumes "raster_ok E" "polygon_cover E ps x y"
  shows "\<exists>p \<in> set ps. fst p \<le> x" "\<exists>p \<in> set ps. x \<le> fst p"
    "\<exists>p \<in> set ps. snd p \<le> y" "\<exists>p \<in> set ps. y \<le> snd p"
proof -
  from assms have "in_bbox ps x y" by (simp add: raster_ok_def)
  then show "\<exists>p \<in> set ps. fst p \<le> x" "\<exists>p \<in> set ps. x \<le> fst p"
    "\<exists>p \<in> set ps. snd p \<le> y" "\<exists>p \<in> set ps. y \<le> snd p"
    by (rule in_bbox_D)+
qed

lemma star_columns:
  assumes ok: "float_ok E" and sz: "30 \<le> sz"
    and s: "(cx, cy, r) \<in> set (star_positions E sz)"
    and q: "q \<in> set (int_points (star_points E cx cy r))"
  shows "1 \<le> fst q" "fst q \<le> sz - 2"
proof -
  have S: "0 \<le> real_of_int sz" "30 \<le> real_of_int sz" using sz by simp_all
  from s have "(cx, cy, r) = (fmul E (of_int sz) (lit E 0.2), fmul E (of_int sz) (lit E 0.2), fmul E (of_int sz) (lit E 0.08))
     \<or> (cx, cy, r) = (fmul E (of_int sz) (lit E 0.8), fmul E (of_int sz) (lit E 0.15), fmul E (of_int sz) (lit E 0.06))
     \<or> (cx, cy, r) = (fmul E (of_int sz) (lit E 0.15), fmul E (of_int sz) (lit E 0.8), fmul E (of_int sz) (lit E 0.06))
     \<or> (cx, cy, r) = (fmul E (of_int sz) (lit E 0.85), fmul E (of_int sz) (lit E 0.85), fmul E (of_int sz) (lit E 0.08))"
    by (simp add: star_positions_def)
  then have "0 < real_of_int (fst q) \<and> real_of_int (fst q) < real_of_int sz - 1"
  proof (elim disjE)
    assume "(cx, cy, r) = (fmul E (of_int sz) (lit E 0.2), fmul E (of_int sz) (lit E 0.2), fmul E (of_int sz) (lit E 0.08))"
    with q have "q \<in> set (int_points (star_points E (fmul E (of_int sz) (lit E 0.2))
        (fmul E (of_int sz) (lit E 0.2)) (fmul E (of_int sz) (lit E 0.08))))" by simp
    from star_vertex_range(1,2) [OF ok S(1) _ _ _ this] S(2) show ?thesis by simp
  next
    assume "(cx, cy, r) = (fmul E (of_int sz) (lit E 0.8), fmul E (of_int sz) (lit E 0.15), fmul E (of_int sz) (lit E 0.06))"
    with q have "q \<in> set (int_points (star_points E (fmul E (of_int sz) (lit E 0.8))
        (fmul E (of_int sz) (lit E 0.15)) (fmul E (of_int sz) (lit E 0.06))))" by simp
    from star_vertex_range(1,2) [OF ok S(1) _ _ _ this] S(2) show ?thesis by simp
  next
    assume "(cx, cy, r) = (fmul E (of_int sz) (lit E 0.15), fmul E (of_int sz) (lit E 0.8), fmul E (of_int sz) (lit E 0.06))"
    with q have "q \<in> set (int_points (star_points E (fmul E (of_int sz) (lit E 0.15))
        (fmul E (of_int sz) (lit E 0.8)) (fmul E (of_int sz) (lit E 0.06))))" by simp
    from star_vertex_range(1,2) [OF ok S(1) _ _ _ this] S(2) show ?thesis by simp
  next
    assume "(cx, cy, r) = (fmul E (of_int sz) (lit E 0.85), fmul E (of_int sz) (lit E 0.85), fmul E (of_int sz) (lit E 0.08))"
    with q have "q \<in> set (int_points (star_points E (fmul E (of_int sz) (lit E 0.85))
        (fmul E (of_int sz) (lit E 0.85)) (fmul E (of_int sz) (lit E 0.08))))" by simp
    from star_vertex_range(1,2) [OF ok S(1) _ _ _ this] S(2) show ?thesis by simp
  qed
  then show "1 \<le> fst q" "fst q \<le> sz - 2" by linarith+
qed

lemma star_cover_columns:
  assumes "float_ok E" "raster_ok E" "30 \<le> sz" "star_cover E sz x y"
  shows "1 \<le> x" "x \<le> sz - 2"
proof -
  from assms(4) obtain cx cy r where s: "(cx, cy, r) \<in> set (star_positions E sz)"
    and c: "polygon_cover E (int_points (star_points E cx cy r)) x y"
    by (auto simp: star_cover_def list_ex_iff one_star_cover_def)
  from polygon_cover_D(1) [OF assms(2) c] star_columns(1) [OF assms(1,3) s]
  show "1 \<le> x" by force
  from polygon_cover_D(2) [OF assms(2) c] star_columns(2) [OF assms(1,3) s]
  show "x \<le> sz - 2" by force
qed

lemma tent_cover_columns:
  assumes "raster_ok E" "30 \<le> sz" "tent_cover E sz x y \<or> opening_cover E sz x y"
  shows "1 \<le> x" "x \<le> sz - 2"
proof -
  from assms(3) have "(\<exists>p \<in> set (tent_points E sz). fst p \<le> x) \<or> (\<exists>p \<in> set (opening_points E sz). fst p \<le> x)"
    using polygon_cover_D(1) [OF assms(1)] by (auto simp: tent_cover_def opening_cover_def)
  then show "1 \<le> x" using assms(2)
    by (auto simp: tent_points_def opening_points_def tent_x_def tent_width_def opening_width_def)
  from assms(3) have "(\<exists>p \<in> set (tent_points E sz). x \<le> fst p) \<or> (\<exists>p \<in> set (opening_points E sz). x \<le> fst p)"
    using polygon_cover_D(2) [OF assms(1)] by (auto simp: tent_cover_def opening_cover_def)
  then show "x \<le> sz - 2" using assms(2)
    by (auto simp: tent_points_def opening_points_def tent_x_def tent_width_def opening_width_def)
qed

lemma pieslice_D:
  assumes "raster_ok E" "pieslice_cover E (bx, by) (ex, ey) s e x y" "ex = bx + d" "ey = by + d"
  shows "bx \<le> x" "x \<le> ex" "by \<le> y" "y \<le> ey"
    "(2 * x - 2 * bx - d)\<^sup>2 + (2 * y - 2 * by - d)\<^sup>2 < (d + 2)\<^sup>2"
proof -
  from assms have "rectangle_cover (bx, by) (bx + d, by + d) x y \<and>
        (2 * x - 2 * bx - d)\<^sup>2 + (2 * y - 2 * by - d)\<^sup>2 < (d + 2)\<^sup>2"
    unfolding raster_ok_def by blast
  then show "bx \<le> x" "x \<le> ex" "by \<le> y" "y \<le> ey"
    "(2 * x - 2 * bx - d)\<^sup>2 + (2 * y - 2 * by - d)\<^sup>2 < (d + 2)\<^sup>2"
    using assms(3,4) by (simp_all add: rectangle_cover_def)
qed

lemma far_corner:
  fixes d :: int
  assumes "12 \<le> d" "a = d - 2 \<or> a = - d" "b = d - 2 \<or> b = - d"
  shows "\<not> a\<^sup>2 + b\<^sup>2 < (d + 2)\<^sup>2"
proof -
  have "12 * d \<le> d * d" using assms(1) by (intro mult_right_mono) simp_all
  then have key: "(d + 2)\<^sup>2 \<le> (d - 2)\<^sup>2 + (d - 2)\<^sup>2"
    by (simp add: power2_eq_square algebra_simps)
  have le: "(d - 2)\<^sup>2 \<le> d\<^sup>2" using assms(1) by (intro power_mono) simp_all
  have "(d - 2)\<^sup>2 \<le> a\<^sup>2" using assms(2) le by auto
  moreover have "(d - 2)\<^sup>2 \<le> b\<^sup>2" using assms(3) le by auto
  ultimately show ?thesis using key by linarith
qed

lemma corner_outside_footprint:
  assumes ok: "raster_ok E" and sz: "30 \<le> sz"
    and x: "x = 0 \<or> x = sz - 1" and y: "y = 0 \<or> y = sz - 1"
  shows "\<not> footprint E sz x y"
proof
  assume f: "footprint E sz x y"
  define r where "r = sz div 5"
  define d where "d = r * 2"
  have r: "6 \<le> r" "5 * r \<le> sz" "sz < 5 * r + 5" using sz unfolding r_def by simp_all
  have d: "12 \<le> d" "d = 2 * r" using r unfolding d_def by simp_all
  have nj: "\<not> (d \<ge> sz - 0 - 1 \<or> d \<ge> sz - 0 - 1)" "d \<noteq> 0" using r d by simp_all
  from f nj have cases: "pieslice_cover E (0, 0) (0 + d, 0 + d) 180 270 x y
         \<or> pieslice_cover E (sz - d, 0) (sz, 0 + d) 270 360 x y
         \<or> pieslice_cover E (sz - d, sz - d) (sz, sz) 0 90 x y
         \<or> pieslice_cover E (0, sz - d) (0 + d, sz) 90 180 x y
         \<or> rectangle_cover (0 + r + 1, 0) (sz - r - 1, sz) x y
         \<or> rectangle_cover (0, 0 + r + 1) (0 + r, sz - r - 1) x y
         \<or> rectangle_cover (sz - r, 0 + r + 1) (sz, sz - r - 1) x y"
    unfolding footprint_def rounded_rectangle_cover_def corner_radius_def Let_def
      r_def [symmetric] d_def [symmetric] by simp
  then show False
  proof (elim disjE)
    assume "pieslice_cover E (0, 0) (0 + d, 0 + d) 180 270 x y"
    from pieslice_D [OF ok this, of d] have b: "x \<le> d" "y \<le> d"
      and q: "(2 * x - d)\<^sup>2 + (2 * y - d)\<^sup>2 < (d + 2)\<^sup>2" by simp_all
    from b x y r d have "x = 0" "y = 0" by auto
    with q far_corner [OF d(1), of "- d" "- d"] show False by simp
  next
    assume "pieslice_cover E (sz - d, 0) (sz, 0 + d) 270 360 x y"
    from pieslice_D [OF ok this, of d] have b: "sz - d \<le> x" "y \<le> d"
      and q: "(2 * x - 2 * (sz - d) - d)\<^sup>2 + (2 * y - d)\<^sup>2 < (d + 2)\<^sup>2" by simp_all
    from b x y r d have xy: "x = sz - 1" "y = 0" by auto
    have "2 * x - 2 * (sz - d) - d = d - 2" using xy by simp
    with q xy far_corner [OF d(1), of "d - 2" "- d"] show False by simp
  next
    assume "pieslice_cover E (sz - d, sz - d) (sz, sz) 0 90 x y"
    from pieslice_D [OF ok this, of d] have b: "sz - d \<le> x" "sz - d \<le> y"
      and q: "(2 * x - 2 * (sz - d) - d)\<^sup>2 + (2 * y - 2 * (sz - d) - d)\<^sup>2 < (d + 2)\<^sup>2" by simp_all
    from b x y r d have xy: "x = sz - 1" "y = sz - 1" by auto
    have "2 * x - 2 * (sz - d) - d = d - 2" "2 * y - 2 * (sz - d) - d = d - 2" using xy by simp_all
    with q far_corner [OF d(1), of "d - 2" "d - 2"] show False by simp
  next
    assume "pieslice_cover E (0, sz - d) (0 + d, sz) 90 180 x y"
    from pieslice_D [OF ok this, of d] have b: "x \<le> d" "sz - d \<le> y"
      and q: "(2 * x - d)\<^sup>2 + (2 * y - 2 * (sz - d) - d)\<^sup>2 < (d + 2)\<^sup>2" by simp_all
    from b x y r d have xy: "x = 0" "y = sz - 1" by auto
    have "2 * y - 2 * (sz - d) - d = d - 2" using xy by simp
    with q xy far_corner [OF d(1), of "- d" "d - 2"] show False by simp
  next
    assume "rectangle_cover (0 + r + 1, 0) (sz - r - 1, sz) x y"
    with x r show False by (auto simp: rectangle_cover_def)
  next
    assume "rectangle_cover (0, 0 + r + 1) (0 + r, sz - r - 1) x y"
    with y r show False by (auto simp: rectangle_cover_def)
  next
    assume "rectangle_cover (sz - r, 0 + r + 1) (sz, sz - r - 1) x y"
    with y r show False by (auto simp: rectangle_cover_def)
  qed
qed

lemma edge_column_px:
  assumes "float_ok E" "raster_ok E" "30 \<le> sz" "x = 0 \<or> x = sz - 1"
  shows "px (create_app_icon E sz) x y = px (masked_background E sz) x y"
proof -
  have "\<not> star_cover E sz x y"
    using star_cover_columns [OF assms(1,2,3), of x y] assms(3,4) by auto
  moreover have "\<not> (tent_cover E sz x y \<or> opening_cover E sz x y)"
    using tent_cover_columns [OF assms(2,3), of x y] assms(3,4) by auto
  ultimately show ?thesis by (simp add: icon_px)
qed

lemma icon_alpha_kept:
  assumes "alpha (px (masked_background E sz) x y) = 255"
  shows "alpha (px (create_app_icon E sz) x y) = 255"
  using assms by (simp add: icon_px alpha_def)

lemma in_sector_quadrants:
  "in_sector 0 90 u v \<longleftrightarrow> 0 \<le> v \<and> 0 \<le> u"
  "in_sector 90 180 u v \<longleftrightarrow> u \<le> 0 \<and> 0 \<le> v"
  "in_sector 180 270 u v \<longleftrightarrow> v \<le> 0 \<and> u \<le> 0"
  "in_sector 270 360 u v \<longleftrightarrow> 0 \<le> u \<and> v \<le> 0"
proof -
  have a: "(90::real) * pi / 180 = pi / 2" "(180::real) * pi / 180 = pi"
    "(270::real) * pi / 180 = 3 * pi / 2" "(360::real) * pi / 180 = 2 * pi" by simp_all
  have b: "cos (3 * pi / 2) = 0" "sin (3 * pi / 2) = - 1"
    using cos_3over2_pi sin_3over2_pi by simp_all
  show "in_sector 0 90 u v \<longleftrightarrow> 0 \<le> v \<and> 0 \<le> u"
    unfolding in_sector_def by (simp add: a)
  show "in_sector 90 180 u v \<longleftrightarrow> u \<le> 0 \<and> 0 \<le> v"
    unfolding in_sector_def by (simp add: a)
  show "in_sector 180 270 u v \<longleftrightarrow> v \<le> 0 \<and> u \<le> 0"
    unfolding in_sector_def by (simp add: a b)
  show "in_sector 270 360 u v \<longleftrightarrow> 0 \<le> u \<and> v \<le> 0"
    unfolding in_sector_def by (simp add: a b)
qed

lemma py_int_zero: "0 \<le> v \<Longrightarrow> v < 1 \<Longrightarrow> py_int v = 0"
  unfolding py_int_def by (simp add: floor_eq_iff)

lemma star_vertex_at_5: "(0, 0) \<in> set (int_points (star_points exact 1 1 0.4))"
proof -
  have ang: "real 8 * (36 * pi / 180) = 8 * pi / 5" by simp
  have s: "sin (8 * pi / 5) < 0" by (intro sin_lt_zero) simp_all
  have s1: "- 1 \<le> sin (8 * pi / 5)" by (rule sin_ge_minus_one)
  have "cos (8 * pi / 5) = cos (2 * pi - 2 * pi / 5)" by simp
  also have "\<dots> = cos (2 * pi / 5)" by (rule cos_2pi_minus)
  finally have c: "cos (8 * pi / 5) = cos (2 * pi / 5)" .
  have c0: "0 < cos (2 * pi / 5)" by (intro cos_gt_zero) simp_all
  have c1: "cos (2 * pi / 5) \<le> 1" by (rule cos_le_one)
  have p: "star_point exact 1 1 0.4 8 = (1 + 0.4 * sin (8 * pi / 5), 1 - 0.4 * cos (2 * pi / 5))"
    unfolding star_point_exact ang c by simp
  have "0 \<le> 1 + 0.4 * sin (8 * pi / 5)" "1 + 0.4 * sin (8 * pi / 5) < 1"
    using s s1 by linarith+
  then have "py_int (1 + 0.4 * sin (8 * pi / 5)) = 0" by (rule py_int_zero)
  moreover have "0 \<le> 1 - 0.4 * cos (2 * pi / 5)" "1 - 0.4 * cos (2 * pi / 5) < 1"
    using c0 c1 by linarith+
  then have "py_int (1 - 0.4 * cos (2 * pi / 5)) = 0" by (rule py_int_zero)
  ultimately have "(\<lambda>(a, b). (py_int a, py_int b)) (star_point exact 1 1 0.4 8) = (0, 0)"
    unfolding p by simp
  moreover have "(8::nat) \<in> set [0..<10]" by simp
  ultimately show ?thesis
    unfolding int_points_def star_points_def set_map by (metis (no_types, lifting) image_eqI)
qed

lemma centre_left:
  fixes S u w hq hh :: real
  assumes "hq \<le> u * (10006 / 10000) + w * (10007 / 10000)" "u \<le> S * (2 / 10)" "w \<le> S * (8 / 100)"
    "S \<le> 2 * hh + 1" "5 \<le> S"
  shows "hq < hh"
  using assms by linarith

lemma centre_right:
  fixes S u w hq hh :: real
  assumes "u * (9996 / 10000) - w * (10007 / 10000) - 1 < hq" "S * (8 / 10) \<le> u" "w \<le> S * (8 / 100)"
    "2 * hh \<le> S" "5 \<le> S"
  shows "hh < hq"
  using assms by linarith

lemma star_columns_off_centre:
  assumes ok: "float_ok E" and sz: "5 \<le> sz"
    and s: "(cx, cy, r) \<in> set (star_positions E sz)"
  shows "(\<forall>q \<in> set (int_points (star_points E cx cy r)). fst q < sz div 2) \<or>
         (\<forall>q \<in> set (int_points (star_points E cx cy r)). sz div 2 < fst q)"
proof -
  define h where "h = sz div 2"
  have "2 * h \<le> sz" "sz \<le> 2 * h + 1" unfolding h_def by simp_all
  then have h: "2 * real_of_int h \<le> real_of_int sz" "real_of_int sz \<le> 2 * real_of_int h + 1"
    by linarith+
  have S: "0 \<le> real_of_int sz" "5 \<le> real_of_int sz" using sz by simp_all
  from s have cases: "(cx, cy, r) = (fmul E (of_int sz) (lit E 0.2), fmul E (of_int sz) (lit E 0.2), fmul E (of_int sz) (lit E 0.08))
     \<or> (cx, cy, r) = (fmul E (of_int sz) (lit E 0.8), fmul E (of_int sz) (lit E 0.15), fmul E (of_int sz) (lit E 0.06))
     \<or> (cx, cy, r) = (fmul E (of_int sz) (lit E 0.15), fmul E (of_int sz) (lit E 0.8), fmul E (of_int sz) (lit E 0.06))
     \<or> (cx, cy, r) = (fmul E (of_int sz) (lit E 0.85), fmul E (of_int sz) (lit E 0.85), fmul E (of_int sz) (lit E 0.08))"
    by (simp add: star_positions_def)
  have c1: "fst q < h" if q: "q \<in> set (int_points (star_points E cx cy r))"
    and e: "(cx, cy, r) = (fmul E (of_int sz) (lit E 0.2), fmul E (of_int sz) (lit E 0.2), fmul E (of_int sz) (lit E 0.08))" for q
  proof -
    from q e have m: "q \<in> set (int_points (star_points E (fmul E (of_int sz) (lit E 0.2))
          (fmul E (of_int sz) (lit E 0.2)) (fmul E (of_int sz) (lit E 0.08))))" by simp
    have v: "real_of_int (fst q) \<le> real_of_int sz * 0.2 * (10006 / 10000) + real_of_int sz * 0.08 * (10007 / 10000)"
      by (rule star_vertex_range(2) [OF ok S(1) _ _ _ m]) simp_all
    have "real_of_int (fst q) < real_of_int h"
      by (rule centre_left [OF v _ _ h(2) S(2)]) (use sz in simp_all)
    then show ?thesis by simp
  qed
  have c2: "h < fst q" if q: "q \<in> set (int_points (star_points E cx cy r))"
    and e: "(cx, cy, r) = (fmul E (of_int sz) (lit E 0.8), fmul E (of_int sz) (lit E 0.15), fmul E (of_int sz) (lit E 0.06))" for q
  proof -
    from q e have m: "q \<in> set (int_points (star_points E (fmul E (of_int sz) (lit E 0.8))
          (fmul E (of_int sz) (lit E 0.15)) (fmul E (of_int sz) (lit E 0.06))))" by simp
    have v: "real_of_int sz * 0.8 * (9996 / 10000) - real_of_int sz * 0.06 * (10007 / 10000) - 1 < real_of_int (fst q)"
      by (rule star_vertex_range(1) [OF ok S(1) _ _ _ m]) simp_all
    have "real_of_int h < real_of_int (fst q)"
      by (rule centre_right [OF v _ _ h(1) S(2)]) (use sz in simp_all)
    then show ?thesis by simp
  qed
  have c3: "fst q < h" if q: "q \<in> set (int_points (star_points E cx cy r))"
    and e: "(cx, cy, r) = (fmul E (of_int sz) (lit E 0.15), fmul E (of_int sz) (lit E 0.8), fmul E (of_int sz) (lit E 0.06))" for q
  proof -
    from q e have m: "q \<in> set (int_points (star_points E (fmul E (of_int sz) (lit E 0.15))
          (fmul E (of_int sz) (lit E 0.8)) (fmul E (of_int sz) (lit E 0.06))))" by simp
    have v: "real_of_int (fst q) \<le> real_of_int sz * 0.15 * (10006 / 10000) + real_of_int sz * 0.06 * (10007 / 10000)"
      by (rule star_vertex_range(2) [OF ok S(1) _ _ _ m]) simp_all
    have "real_of_int (fst q) < real_of_int h"
      by (rule centre_left [OF v _ _ h(2) S(2)]) (use sz in simp_all)
    then show ?thesis by simp
  qed
  have c4: "h < fst q" if q: "q \<in> set (int_points (star_points E cx cy r))"
    and e: "(cx, cy, r) = (fmul E (of_int sz) (lit E 0.85), fmul E (of_int sz) (lit E 0.85), fmul E (of_int sz) (lit E 0.08))" for q
  proof -
    from q e have m: "q \<in> set (int_points (star_points E (fmul E (of_int sz) (lit E 0.85))
          (fmul E (of_int sz) (lit E 0.85)) (fmul E (of_int sz) (lit E 0.08))))" by simp
    have v: "real_of_int sz * 0.85 * (9996 / 10000) - real_of_int sz * 0.08 * (10007 / 10000) - 1 < real_of_int (fst q)"
      by (rule star_vertex_range(1) [OF ok S(1) _ _ _ m]) simp_all
    have "real_of_int h < real_of_int (fst q)"
      by (rule centre_right [OF v _ _ h(1) S(2)]) (use sz in simp_all)
    then show ?thesis by simp
  qed
  have "(\<forall>q \<in> set (int_points (star_points E cx cy r)). fst q < h) \<or>
         (\<forall>q \<in> set (int_points (star_points E cx cy r)). h < fst q)"
    using cases
  proof (elim disjE)
    assume "(cx, cy, r) = (fmul E (of_int sz) (lit E 0.2), fmul E (of_int sz) (lit E 0.2), fmul E (of_int sz) (lit E 0.08))"
    then have "\<forall>q \<in> set (int_points (star_points E cx cy r)). fst q < h" using c1 by blast
    then show ?thesis ..
  next
    assume "(cx, cy, r) = (fmul E (of_int sz) (lit E 0.8), fmul E (of_int sz) (lit E 0.15), fmul E (of_int sz) (lit E 0.06))"
    then have "\<forall>q \<in> set (int_points (star_points E cx cy r)). h < fst q" using c2 by blast
    then show ?thesis ..
  next
    assume "(cx, cy, r) = (fmul E (of_int sz) (lit E 0.15), fmul E (of_int sz) (lit E 0.8), fmul E (of_int sz) (lit E 0.06))"
    then have "\<forall>q \<in> set (int_points (star_points E cx cy r)). fst q < h" using c3 by blast
    then show ?thesis ..
  next
    assume "(cx, cy, r) = (fmul E (of_int sz) (lit E 0.85), fmul E (of_int sz) (lit E 0.85), fmul E (of_int sz) (lit E 0.08))"
    then have "\<forall>q \<in> set (int_points (star_points E cx cy r)). h < fst q" using c4 by blast
    then show ?thesis ..
  qed
  then show ?thesis unfolding h_def .
qed

lemma star_cover_off_centre:
  assumes "float_ok E" "raster_ok E" "5 \<le> sz"
  shows "\<not> star_cover E sz (sz div 2) y"
proof
  assume "star_cover E sz (sz div 2) y"
  then obtain cx cy r where s: "(cx, cy, r) \<in> set (star_positions E sz)"
    and c: "polygon_cover E (int_points (star_points E cx cy r)) (sz div 2) y"
    by (auto simp: star_cover_def list_ex_iff one_star_cover_def)
  from polygon_cover_D(1) [OF assms(2) c] obtain p
    where p: "p \<in> set (int_points (star_points E cx cy r))" "fst p \<le> sz div 2" by blast
  from polygon_cover_D(2) [OF assms(2) c] obtain p'
    where p': "p' \<in> set (int_points (star_points E cx cy r))" "sz div 2 \<le> fst p'" by blast
  from star_columns_off_centre [OF assms(1,3) s] show False
  proof
    assume "\<forall>q \<in> set (int_points (star_points E cx cy r)). fst q < sz div 2"
    with p' show False by fastforce
  next
    assume "\<forall>q \<in> set (int_points (star_points E cx cy r)). sz div 2 < fst q"
    with p show False by fastforce
  qed
qed

section \<open>The tent and its opening\<close>

lemma tent_height_nonneg:
  assumes "float_ok E" "0 \<le> sz"
  shows "0 \<le> tent_height E sz"
proof -
  have "0 \<le> real_of_int sz" using assms(2) by simp
  from scaled_bounds(1) [OF assms(1) this, of "0.35"] this
  have "0 \<le> fmul E (of_int sz) (lit E 0.35)" by simp
  then show ?thesis by (simp add: tent_height_def py_int_def)
qed

lemma opening_not_cover:
  assumes "raster_ok E" "float_ok E" "0 \<le> sz" "y < tent_y E sz - opening_height E sz"
  shows "\<not> opening_cover E sz x y"
proof
  assume "opening_cover E sz x y"
  then have "\<exists>p \<in> set (opening_points E sz). snd p \<le> y"
    using polygon_cover_D(3) [OF assms(1)] by (simp add: opening_cover_def)
  moreover have "0 \<le> opening_height E sz"
    using tent_height_nonneg [OF assms(2,3)] by (simp add: opening_height_def)
  ultimately show False using assms(4) by (auto simp: opening_points_def)
qed

lemma triangle_crossings:
  fixes tx w h ty m :: int
  assumes "0 < w" "ty - h < m" "m < ty"
  shows "crossings [(tx - w, ty), (tx, ty - h), (tx + w, ty)] tx m = 1"
proof -
  have h: "0 < h" using assms by simp
  have e: "edges [(tx - w, ty), (tx, ty - h), (tx + w, ty)] =
      [((tx - w, ty), (tx, ty - h)), ((tx, ty - h), (tx + w, ty)), ((tx + w, ty), (tx - w, ty))]"
    by (simp add: edges_def)
  have c1: "\<not> crosses (tx - w, ty) (tx, ty - h) tx m"
  proof -
    have "real_of_int (ty - m) \<le> real_of_int h" using assms by simp
    then have "real_of_int (ty - m) * real_of_int w \<le> real_of_int h * real_of_int w"
      using assms(1) by (intro mult_right_mono) simp_all
    then have "real_of_int (ty - m) * real_of_int w / real_of_int h \<le> real_of_int w"
      using h by (simp add: divide_le_eq mult.commute)
    moreover have "real_of_int (m - ty) * real_of_int (tx - (tx - w)) / real_of_int (ty - h - ty)
        = real_of_int (ty - m) * real_of_int w / real_of_int h"
      using h by (simp add: field_simps)
    ultimately show ?thesis
      unfolding crosses_def fst_conv snd_conv by (simp del: of_int_diff)
  qed
  have c2: "crosses (tx, ty - h) (tx + w, ty) tx m"
  proof -
    have "0 < real_of_int (m - (ty - h)) * real_of_int w / real_of_int h"
      using assms h by (intro divide_pos_pos mult_pos_pos) simp_all
    moreover have "real_of_int (m - (ty - h)) * real_of_int (tx + w - tx) / real_of_int (ty - (ty - h))
        = real_of_int (m - (ty - h)) * real_of_int w / real_of_int h"
      by simp
    ultimately show ?thesis
      using assms unfolding crosses_def fst_conv snd_conv by (simp del: of_int_diff)
  qed
  have c3: "\<not> crosses (tx + w, ty) (tx - w, ty) tx m"
    by (simp add: crosses_def)
  show ?thesis
    unfolding crossings_def e using c1 c2 c3 by simp
qed

lemma tent_covers_centre:
  assumes "raster_ok E" "4 \<le> sz" "tent_y E sz - tent_height E sz \<le> m" "m < tent_y E sz"
  shows "tent_cover E sz (sz div 2) m"
proof (cases "m = tent_y E sz - tent_height E sz")
  case True
  have "(sz div 2, m) \<in> set (tent_points E sz)"
    unfolding True by (simp add: tent_points_def tent_x_def)
  then have "polygon_cover E (tent_points E sz) (fst (sz div 2, m)) (snd (sz div 2, m))"
    using assms(1) unfolding raster_ok_def by blast
  then show ?thesis by (simp add: tent_cover_def)
next
  case False
  with assms have m: "tent_y E sz - tent_height E sz < m" by simp
  have w: "0 < tent_width sz div 2" using assms(2) by (simp add: tent_width_def)
  have tx: "sz div 2 = tent_x sz" by (simp add: tent_x_def)
  have "crossings (tent_points E sz) (sz div 2) m = 1"
    unfolding tx tent_points_def
    using triangle_crossings [OF w m assms(4), of "tent_x sz"] by simp
  moreover have "in_bbox (tent_points E sz) (sz div 2) m"
    using assms(3,4) w by (simp add: in_bbox_def tent_points_def tent_x_def)
  ultimately have "polygon_cover E (tent_points E sz) (sz div 2) m"
    using assms(1) unfolding raster_ok_def by simp
  then show ?thesis by (simp add: tent_cover_def)
qed

lemma mid_row_in_canvas:
  assumes "1 \<le> sz" "m = py_int (0.6 * real_of_int sz - 0.35 * real_of_int sz * 0.5)"
  shows "0 \<le> m" "m < sz"
proof -
  have v: "0.6 * real_of_int sz - 0.35 * real_of_int sz * 0.5 = real_of_int sz * (425 / 1000)"
    by simp
  have nn: "0 \<le> real_of_int sz * (425 / 1000)" using assms(1) by simp
  have m: "m = \<lfloor>real_of_int sz * (425 / 1000)\<rfloor>"
    unfolding assms(2) v py_int_def using nn by simp
  show "0 \<le> m" unfolding m using nn by simp
  have "real_of_int sz * (425 / 1000) < real_of_int sz" using assms(1) by simp
  then show "m < sz" unfolding m by (simp add: floor_less_iff)
qed

section \<open>The claims\<close>

text \<open>
  C1. For a positive size, two calls of \<^verbatim>\<open>create_app_icon\<close> with that size, started on
  any two heaps of image objects, return canvases of the same dimensions that agree at every
  pixel. Each call returns a fresh object holding the rendering and leaves every object that
  was there before as it was; so a second call, run after the first, returns a canvas equal
  to the first and does not disturb it.
\<close>

theorem render_deterministic:
  assumes "0 < sz" "create_app_icon_call E sz h = (a, h')" "create_app_icon_call E sz k = (b, k')"
  shows "width (rgba_at h' a) = width (rgba_at k' b) \<and>
    height (rgba_at h' a) = height (rgba_at k' b) \<and>
    (\<forall>x y. px (rgba_at h' a) x y = px (rgba_at k' b) x y) \<and>
    rgba_at h' a = create_app_icon E sz \<and>
    length h \<le> a \<and> a < length h' \<and> (\<forall>j < length h. h' ! j = h ! j)"
  using assms unfolding call_result by (auto simp: rgba_at_def nth_append)

theorem render_deterministic_witness:
  "rgba_at (snd (create_app_icon_call exact 40 (snd (create_app_icon_call exact 40 []))))
     (fst (create_app_icon_call exact 40 (snd (create_app_icon_call exact 40 [])))) =
   create_app_icon exact 40 \<and>
   rgba_at (snd (create_app_icon_call exact 40 (snd (create_app_icon_call exact 40 []))))
     (fst (create_app_icon_call exact 40 [])) =
   create_app_icon exact 40 \<and>
   fst (create_app_icon_call exact 40 (snd (create_app_icon_call exact 40 []))) \<noteq>
   fst (create_app_icon_call exact 40 [])"
proof -
  define r1 where "r1 = create_app_icon_call exact 40 []"
  define r2 where "r2 = create_app_icon_call exact 40 (snd r1)"
  have c1: "create_app_icon_call exact 40 [] = (fst r1, snd r1)" by (simp add: r1_def)
  have c2: "create_app_icon_call exact 40 (snd r1) = (fst r2, snd r2)" by (simp add: r2_def)
  note d1 = render_deterministic [OF _ c1 c2]
  note d2 = render_deterministic [OF _ c2 c1]
  have "rgba_at (snd r1) (fst r1) = create_app_icon exact 40" "fst r1 < length (snd r1)"
    using d1 by simp_all
  moreover have "rgba_at (snd r2) (fst r2) = create_app_icon exact 40" "length (snd r1) \<le> fst r2"
    "\<forall>j < length (snd r1). snd r2 ! j = snd r1 ! j" "fst r2 < length (snd r2)"
    using d2 by simp_all
  ultimately have "rgba_at (snd r2) (fst r2) = create_app_icon exact 40"
    "rgba_at (snd r2) (fst r1) = create_app_icon exact 40" "fst r2 \<noteq> fst r1"
    by (auto simp: rgba_at_def)
  then show ?thesis unfolding r2_def r1_def by simp
qed

text \<open>
  C2. For a positive size and a row \<open>y\<close> of the canvas, every pixel of row \<open>y\<close> of the
  background, before the mask, is \<open>int(63 + (48 - 63) * y / size)\<close>,
  \<open>int(81 + (63 - 81) * y / size)\<close>, \<open>int(181 + (159 - 181) * y / size)\<close> with alpha 255,
  the same for every column \<open>x\<close>. Each rectangle of the loop also paints the row below it,
  which the next round of the loop paints over.
\<close>

theorem gradient_row_color:
  assumes "0 < sz" "0 \<le> y" "y < sz" "0 \<le> x" "x < sz"
  shows "px (gradient_background E sz) x y =
     (py_int (fadd E 63 (fmul E (48 - 63) (fdiv E (of_int y) (of_int sz)))),
      py_int (fadd E 81 (fmul E (63 - 81) (fdiv E (of_int y) (of_int sz)))),
      py_int (fadd E 181 (fmul E (159 - 181) (fdiv E (of_int y) (of_int sz)))), 255)"
  using assms by (simp add: gradient_background_px gradient_color_def Let_def)

theorem gradient_row_color_witness:
  "px (gradient_background exact 10) 7 3 = (58, 75, 174, 255)"
  using gradient_row_color [of 10 3 7 exact]
  by (simp add: exact_def fdiv_def fadd_def fmul_def py_int_def)

text \<open>
  C3. The claim holds of the mask the script means to draw, and the script misses it by one
  pixel: the box given to the rounded rectangle ends at \<open>(size, size)\<close>, beyond the last pixel
  \<open>(size - 1, size - 1)\<close>, and the library counts both corners of a box in. At size 10, with
  corner radius 2, the pixel \<open>(9, 9)\<close> lies inside the lower right quarter disc and stays
  opaque, while \<open>(0, 0)\<close> is cut off; with the box ending at \<open>(9, 9)\<close> all four corner pixels
  are outside the mask.
\<close>

theorem corner_opaque_at_10:
  "(1::int) \<le> 10 div 5 \<and> alpha (px (create_app_icon exact 10) (10 - 1) (10 - 1)) = 255 \<and>
   footprint exact 10 9 9 \<and> \<not> footprint exact 10 0 0 \<and>
   \<not> rounded_rectangle_cover exact (0, 0) (9, 9) (corner_radius 10) 0 0 \<and>
   \<not> rounded_rectangle_cover exact (0, 0) (9, 9) (corner_radius 10) 9 0 \<and>
   \<not> rounded_rectangle_cover exact (0, 0) (9, 9) (corner_radius 10) 0 9 \<and>
   \<not> rounded_rectangle_cover exact (0, 0) (9, 9) (corner_radius 10) 9 9"
proof -
  have f: "footprint exact 10 9 9" "\<not> footprint exact 10 0 0"
    by (simp_all add: footprint_def rounded_rectangle_cover_def corner_radius_def Let_def exact_def
        exact_pieslice_def in_ellipse_def rectangle_cover_def in_sector_quadrants)
  have g: "\<not> rounded_rectangle_cover exact (0, 0) (9, 9) (corner_radius 10) 0 0"
    "\<not> rounded_rectangle_cover exact (0, 0) (9, 9) (corner_radius 10) 9 0"
    "\<not> rounded_rectangle_cover exact (0, 0) (9, 9) (corner_radius 10) 0 9"
    "\<not> rounded_rectangle_cover exact (0, 0) (9, 9) (corner_radius 10) 9 9"
    by (simp_all add: rounded_rectangle_cover_def corner_radius_def Let_def exact_def
        exact_pieslice_def in_ellipse_def rectangle_cover_def in_sector_quadrants)
  from f(1) have "alpha (px (masked_background exact 10) 9 9) = 255"
    by (simp add: masked_alpha)
  then have "alpha (px (create_app_icon exact 10) 9 9) = 255"
    by (rule icon_alpha_kept)
  with f g show ?thesis by simp
qed

text \<open>
  C5. For a positive size and two rows \<open>y1 < y2\<close> of the canvas, each of red, green and blue
  of the background, before the mask, at row \<open>y2\<close> is at most the same channel at row \<open>y1\<close>,
  and every channel stays between the bottom colour (48, 63, 159) and the top colour
  (63, 81, 181).
\<close>

theorem gradient_monotone:
  assumes "float_ok E" "0 < sz" "0 \<le> y1" "y1 < y2" "y2 < sz"
    "0 \<le> x1" "x1 < sz" "0 \<le> x2" "x2 < sz"
  shows "red (px (gradient_background E sz) x2 y2) \<le> red (px (gradient_background E sz) x1 y1) \<and>
     green (px (gradient_background E sz) x2 y2) \<le> green (px (gradient_background E sz) x1 y1) \<and>
     blue (px (gradient_background E sz) x2 y2) \<le> blue (px (gradient_background E sz) x1 y1) \<and>
     48 \<le> red (px (gradient_background E sz) x2 y2) \<and>
     red (px (gradient_background E sz) x1 y1) \<le> 63 \<and>
     63 \<le> green (px (gradient_background E sz) x2 y2) \<and>
     green (px (gradient_background E sz) x1 y1) \<le> 81 \<and>
     159 \<le> blue (px (gradient_background E sz) x2 y2) \<and>
     blue (px (gradient_background E sz) x1 y1) \<le> 181"
proof -
  have p1: "px (gradient_background E sz) x1 y1 = gradient_color E sz y1"
    using assms by (intro gradient_background_px) simp_all
  have p2: "px (gradient_background E sz) x2 y2 = gradient_color E sz y2"
    using assms by (intro gradient_background_px) simp_all
  have le: "y1 \<le> y2" using assms by simp
  have r1: "0 \<le> y1" "y1 < sz" using assms by simp_all
  have r2: "0 \<le> y2" "y2 < sz" using assms by simp_all
  show ?thesis
    unfolding p1 p2
    using gradient_color_mono [OF assms(1,2) le]
      gradient_color_range [OF assms(1,2) r1] gradient_color_range [OF assms(1,2) r2]
    by simp
qed

theorem gradient_monotone_witness:
  "red (px (gradient_background exact 10) 2 4) \<le> red (px (gradient_background exact 10) 7 3) \<and>
   red (px (gradient_background exact 10) 2 4) = 57 \<and>
   red (px (gradient_background exact 10) 7 3) = 58"
  using gradient_monotone [OF exact_float_ok, of 10 3 4 7 2]
  by (simp add: gradient_background_px gradient_color_def Let_def red_def exact_def fdiv_def fadd_def
      fmul_def py_int_def)

text \<open>
  C9. Every pixel of the rendered canvas has alpha 0 or alpha 255: the mask holds only 0 and
  255, and the tent, the opening and the stars are filled with alpha 255.
\<close>

theorem alpha_is_binary:
  "alpha (px (create_app_icon E sz) x y) = 0 \<or> alpha (px (create_app_icon E sz) x y) = 255"
  using binary_alpha_icon [of E sz] by (simp add: binary_alpha_def)

text \<open>
  C6. When the icon-set directory exists, no file to write is a directory, and neither a
  directory to make nor an ancestor of a path the run touches is a regular file,
  \<^verbatim>\<open>main\<close> ends normally and leaves the manifest in
  \<^verbatim>\<open>Contents.json\<close> of the icon-set directory. Read back, the manifest has exactly 9 image
  entries and the info block with version 1 and author \<^verbatim>\<open>xcode\<close>; every entry has a size
  string, a filename, an idiom that is \<^verbatim>\<open>iphone\<close> or \<^verbatim>\<open>ios-marketing\<close>, and a scale that is
  \<^verbatim>\<open>1x\<close>, \<^verbatim>\<open>2x\<close> or \<^verbatim>\<open>3x\<close>.
\<close>

theorem manifest_written:
  assumes "can_run here fs"
  shows "\<exists>fs'. main E here fs = Inr fs' \<and>
     files fs' (path_join (ios_path here) ''Contents.json'') = Some (JSON contents) \<and>
     (\<exists>images. json_get ''images'' contents = Some (JArray images) \<and> length images = 9 \<and>
        list_all entry_ok images) \<and>
     json_get ''info'' contents =
       Some (JObject [(''version'', JNumber 1), (''author'', JString ''xcode'')])"
proof -
  have "json_get ''images'' contents = Some (JArray
        [image_entry ''20x20'' ''iphone'' ''icon-40.png'' ''2x'',
         image_entry ''20x20'' ''iphone'' ''icon-60.png'' ''3x'',
         image_entry ''29x29'' ''iphone'' ''icon-58.png'' ''2x'',
         image_entry ''29x29'' ''iphone'' ''icon-87.png'' ''3x'',
         image_entry ''40x40'' ''iphone'' ''icon-80.png'' ''2x'',
         image_entry ''40x40'' ''iphone'' ''icon-120.png'' ''3x'',
         image_entry ''60x60'' ''iphone'' ''icon-120.png'' ''2x'',
         image_entry ''60x60'' ''iphone'' ''icon-180.png'' ''3x'',
         image_entry ''1024x1024'' ''ios-marketing'' ''icon-1024.png'' ''1x''])"
    by (simp add: contents_def)
  moreover have "entry_ok (image_entry s i f sc)"
    if "i = ''iphone'' \<or> i = ''ios-marketing''" "sc = ''1x'' \<or> sc = ''2x'' \<or> sc = ''3x''"
    for s i f sc
    using that by (auto simp: entry_ok_def image_entry_def)
  moreover have "json_get ''info'' contents =
       Some (JObject [(''version'', JNumber 1), (''author'', JString ''xcode'')])"
    by (simp add: contents_def)
  ultimately show ?thesis
    using main_final [OF assms, of E] by auto
qed

theorem manifest_written_witness:
  "\<exists>fs'. main exact ''scripts'' fresh_tree = Inr fs' \<and>
     files fs' ''scripts/../ios/KidsCampTracker/Images.xcassets/AppIcon.appiconset/Contents.json''
       = Some (JSON contents)"
  using manifest_written [OF can_run_fresh_tree, of exact]
  by (auto simp: ios_path_def path_join_def)

text \<open>
  C7. When the icon-set directory exists, no file to write is a directory, and neither a
  directory to make nor an ancestor of a path the run touches is a regular file,
  \<^verbatim>\<open>main\<close> ends normally, and for each of the five density
  folders the folder is a directory afterwards and its files \<^verbatim>\<open>ic_launcher.png\<close> and
  \<^verbatim>\<open>ic_launcher_round.png\<close> both hold the rendering at the size of that folder.
\<close>

theorem android_icons_written:
  assumes "can_run here fs"
  shows "android_sizes =
       [(48, ''mipmap-mdpi''), (72, ''mipmap-hdpi''), (96, ''mipmap-xhdpi''),
        (144, ''mipmap-xxhdpi''), (192, ''mipmap-xxxhdpi'')] \<and>
     (\<exists>fs'. main E here fs = Inr fs' \<and> list_all (android_ok E here fs') android_sizes)"
  using main_final [OF assms, of E] by (auto simp: android_sizes_def)

theorem android_icons_written_witness:
  "\<exists>fs'. main exact ''scripts'' fresh_tree = Inr fs' \<and>
     ''scripts/../android/app/src/main/res/mipmap-hdpi'' \<in> dirs fs' \<and>
     files fs' ''scripts/../android/app/src/main/res/mipmap-hdpi/ic_launcher.png''
       = Some (PNG (create_app_icon exact 72)) \<and>
     files fs' ''scripts/../android/app/src/main/res/mipmap-hdpi/ic_launcher_round.png''
       = Some (PNG (create_app_icon exact 72))"
  using android_icons_written [OF can_run_fresh_tree, of exact]
  by (auto simp: android_sizes_def android_ok_def android_path_def path_join_def Let_def)

text \<open>
  C8. A star polygon has exactly 10 vertices. For floats and a cosine and sine of the stated
  accuracy and an outer radius \<open>R\<close> that is a float, vertex \<open>i\<close> lies within rounding error,
  \<open>(|x| + |R|) / 2 ^ 46\<close> in each coordinate, of the point at the angle of \<open>i\<close> times 36 degrees
  from the top of the star, measured around the centre \<open>(x, y)\<close>, at distance \<open>R\<close> when \<open>i\<close> is
  even and at distance 0.5 times \<open>R\<close> when \<open>i\<close> is odd; the halving itself is exact. In exact
  arithmetic the vertex is that point.
\<close>

theorem star_vertices:
  assumes "float_ok E" "trig_ok E" "fl E R = R" "i < 10"
  shows "length (star_points E x y R) = 10 \<and>
    \<bar>fst (star_points E x y R ! i) -
       (x + (if even i then R else R * 0.5) * sin (real i * (36 * pi / 180)))\<bar>
      \<le> (\<bar>x\<bar> + \<bar>R\<bar>) / 2 ^ 46 \<and>
    \<bar>snd (star_points E x y R ! i) -
       (y - (if even i then R else R * 0.5) * cos (real i * (36 * pi / 180)))\<bar>
      \<le> (\<bar>y\<bar> + \<bar>R\<bar>) / 2 ^ 46 \<and>
    (if even i then R else fmul E R (lit E 0.5)) = (if even i then R else R * 0.5) \<and>
    star_points exact x y R ! i =
      (x + (if even i then R else R * 0.5) * sin (real i * (36 * pi / 180)),
       y - (if even i then R else R * 0.5) * cos (real i * (36 * pi / 180)))"
proof -
  have n: "star_points E' x y R ! i = star_point E' x y R i" for E'
    using assms(4) by (simp add: star_points_def)
  have "length (star_points E x y R) = 10" by (simp add: star_points_def)
  moreover note star_point_close [OF assms, of x y]
  moreover have "(if even i then R else fmul E R (lit E 0.5)) = (if even i then R else R * 0.5)"
    using half_radius_exact [OF assms(2,3)] by simp
  moreover note star_point_exact [of x y R i]
  ultimately show ?thesis unfolding n by simp
qed

theorem star_vertices_witness:
  "star_points exact 20 20 8 ! 0 = (20, 12) \<and> star_points exact 20 20 8 ! 5 = (20, 24)"
proof -
  have f: "fl exact 8 = 8" by (simp add: exact_def)
  show ?thesis
    using star_vertices [OF exact_float_ok exact_trig_ok f, of 0 20 20]
      star_vertices [OF exact_float_ok exact_trig_ok f, of 5 20 20] sin_npi [of 1] cos_npi [of 1]
    by simp
qed

text \<open>
  C10, as stated, fails: at size 5 the pixel \<open>(0, 0)\<close> is outside the footprint of the mask,
  yet the first star has a vertex there and paints it gold, so its colour is not the gradient
  colour of row 0.
\<close>

theorem star_on_cut_corner:
  "\<not> footprint exact 5 0 0 \<and> px (create_app_icon exact 5) 0 0 = (255, 215, 0, 255) \<and>
   px (gradient_background exact 5) 0 0 = (63, 81, 181, 255)"
proof -
  have f: "\<not> footprint exact 5 0 0"
    by (simp add: footprint_def rounded_rectangle_cover_def corner_radius_def Let_def exact_def
        exact_pieslice_def in_ellipse_def rectangle_cover_def in_sector_quadrants)
  have "polygon_cover exact (int_points (star_points exact 1 1 0.4)) 0 0"
    using exact_raster_ok star_vertex_at_5 unfolding raster_ok_def by fastforce
  then have "star_cover exact 5 0 0"
    by (simp add: star_cover_def star_positions_def one_star_cover_def fmul_def lit_def exact_def)
  then have p: "px (create_app_icon exact 5) 0 0 = (255, 215, 0, 255)"
    by (simp add: icon_px)
  have g: "px (gradient_background exact 5) 0 0 = (63, 81, 181, 255)"
    by (simp add: gradient_background_px gradient_color_def Let_def exact_def fdiv_def fadd_def
        fmul_def py_int_def)
  from f p g show ?thesis by simp
qed

text \<open>
  C10, amended. For every pixel of the canvas outside the footprint of the mask that neither
  the tent, the opening nor a star paints, red, green and blue of the rendering equal those of
  the gradient background at that pixel, and alpha is 0: the mask changes the alpha channel only.
\<close>

theorem mask_keeps_color:
  assumes "0 \<le> x" "x < sz" "0 \<le> y" "y < sz" "\<not> footprint E sz x y"
    "\<not> tent_cover E sz x y" "\<not> opening_cover E sz x y" "\<not> star_cover E sz x y"
  shows "red (px (create_app_icon E sz) x y) = red (px (gradient_background E sz) x y) \<and>
    green (px (create_app_icon E sz) x y) = green (px (gradient_background E sz) x y) \<and>
    blue (px (create_app_icon E sz) x y) = blue (px (gradient_background E sz) x y) \<and>
    alpha (px (create_app_icon E sz) x y) = 0"
  using assms
  by (simp add: icon_px masked_background_px gradient_background_px footprint_def red_def green_def
      blue_def alpha_def)

theorem mask_keeps_color_witness:
  "px (create_app_icon exact 40) 0 0 = (63, 81, 181, 0)"
proof -
  have a: "\<not> footprint exact 40 0 0"
    using corner_outside_footprint [OF exact_raster_ok, of 40 0 0] by simp
  have b: "\<not> tent_cover exact 40 0 0" "\<not> opening_cover exact 40 0 0"
    using tent_cover_columns [OF exact_raster_ok, of 40 0 0] by auto
  have c: "\<not> star_cover exact 40 0 0"
    using star_cover_columns [OF exact_float_ok exact_raster_ok, of 40 0 0] by auto
  have g: "px (gradient_background exact 40) 0 0 = (63, 81, 181, 255)"
    by (simp add: gradient_background_px gradient_color_def Let_def exact_def fdiv_def fadd_def
        fmul_def py_int_def)
  show ?thesis
    using mask_keeps_color [of 0 40 0 exact, OF _ _ _ _ a b c] g
    by (cases "px (create_app_icon exact 40) 0 0") (simp add: red_def green_def blue_def alpha_def)
qed

text \<open>
  C4, as stated, fails: the opening is half as high as the tent and stands on the same base
  line, so its apex sits at the mid-height of the tent. At size 58 the pixel of the claim,
  column 29 and row \<open>int(0.6 * 58 - 0.35 * 58 * 0.5) = 24\<close>, is the apex vertex of the opening
  and carries the colour of the opening, not white.
\<close>

theorem opening_apex_at_58:
  "px (create_app_icon exact 58) (58 div 2) (py_int (0.6 * 58 - 0.35 * 58 * 0.5)) = (48, 63, 159, 255)"
proof -
  have m: "py_int (0.6 * 58 - 0.35 * 58 * 0.5) = 24" by (simp add: py_int_def)
  have "(29, 24) \<in> set (opening_points exact 58)"
    by (simp add: opening_points_def tent_x_def tent_y_def tent_height_def opening_height_def
        opening_width_def tent_width_def fmul_def lit_def exact_def py_int_def)
  then have "polygon_cover exact (opening_points exact 58) (fst (29::int, 24::int)) (snd (29::int, 24::int))"
    using exact_raster_ok unfolding raster_ok_def by blast
  then have o: "opening_cover exact 58 29 24" by (simp add: opening_cover_def)
  have s: "\<not> star_cover exact 58 29 24"
    using star_cover_off_centre [OF exact_float_ok exact_raster_ok, of 58 24] by simp
  show ?thesis unfolding m using o s by (simp add: icon_px)
qed

text \<open>
  C4, amended. For every size of at least 5 whose row \<open>m = int(0.6 * size - 0.35 * size * 0.5)\<close>
  lies at or below the apex row of the tent and strictly above the apex row of the opening, the
  pixel in column \<open>size // 2\<close> and row \<open>m\<close> of the rendering is opaque white.
\<close>

theorem tent_pixel_white:
  assumes "float_ok E" "raster_ok E" "5 \<le> sz"
    "m = py_int (0.6 * real_of_int sz - 0.35 * real_of_int sz * 0.5)"
    "tent_y E sz - tent_height E sz \<le> m" "m < tent_y E sz - opening_height E sz"
  shows "px (create_app_icon E sz) (sz div 2) m = (255, 255, 255, 255)"
proof -
  have sz: "0 \<le> sz" "1 \<le> sz" "4 \<le> sz" using assms(3) by simp_all
  have c: "0 \<le> sz div 2" "sz div 2 < sz" using assms(3) by simp_all
  note r = mid_row_in_canvas [OF sz(2) assms(4)]
  have "0 \<le> opening_height E sz"
    using tent_height_nonneg [OF assms(1) sz(1)] by (simp add: opening_height_def)
  with assms(6) have below: "m < tent_y E sz" by simp
  have "\<not> star_cover E sz (sz div 2) m" by (rule star_cover_off_centre [OF assms(1,2,3)])
  moreover have "\<not> opening_cover E sz (sz div 2) m"
    by (rule opening_not_cover [OF assms(2,1) sz(1) assms(6)])
  moreover have "tent_cover E sz (sz div 2) m"
    by (rule tent_covers_centre [OF assms(2) sz(3) assms(5) below])
  ultimately show ?thesis using c r by (simp add: icon_px)
qed

theorem tent_pixel_white_witness:
  "px (create_app_icon exact 60) 30 25 = (255, 255, 255, 255)"
  using tent_pixel_white [OF exact_float_ok exact_raster_ok, of 60 25]
  by (simp add: tent_y_def tent_height_def opening_height_def fmul_def lit_def exact_def py_int_def)

end
